theory Spec2Isabelle
  imports Complex_Main "HOL-Library.AList"
begin

section \<open>Strings of the C++ standard library\<close>

text \<open>
  \<open>std::string\<close> is a \<open>string\<close> (a list of bytes). \<open>npos\<close>, the largest \<open>size_t\<close>, is
  \<open>None\<close>: \<open>std::min\<close> of two search results keeps the one that was found.
\<close>

datatype exn = invalid_argument | out_of_range

primrec find_first :: "char \<Rightarrow> string \<Rightarrow> nat option" where
  "find_first c [] = None"
| "find_first c (x # xs) = (if x = c then Some 0 else map_option Suc (find_first c xs))"

definition find_char :: "string \<Rightarrow> char \<Rightarrow> nat \<Rightarrow> nat option" where
  \<comment> \<open>\<open>s.find(c, pos)\<close>\<close>
  "find_char s c pos = map_option (\<lambda>i. pos + i) (find_first c (drop pos s))"

primrec find_str :: "string \<Rightarrow> string \<Rightarrow> nat option" where
  \<comment> \<open>\<open>s.find(pat)\<close>, the index of the first occurrence\<close>
  "find_str pat [] = (if pat = [] then Some 0 else None)"
| "find_str pat (x # xs) =
     (if take (length pat) (x # xs) = pat then Some 0 else map_option Suc (find_str pat xs))"

definition substr :: "string \<Rightarrow> nat \<Rightarrow> nat \<Rightarrow> string" where
  \<comment> \<open>\<open>s.substr(pos, n)\<close>; every call of the source has \<open>pos \<le> s.size()\<close>\<close>
  "substr s pos n = take n (drop pos s)"

definition substr_from :: "string \<Rightarrow> nat \<Rightarrow> string" where
  \<comment> \<open>\<open>s.substr(pos)\<close>\<close>
  "substr_from s pos = drop pos s"

definition npos_min :: "nat option \<Rightarrow> nat option \<Rightarrow> nat option" where
  \<comment> \<open>\<open>std::min\<close> on two search results\<close>
  "npos_min a b = (case a of None \<Rightarrow> b
                   | Some x \<Rightarrow> (case b of None \<Rightarrow> Some x | Some y \<Rightarrow> Some (min x y)))"

definition tolower_c :: "char \<Rightarrow> char" where
  \<comment> \<open>\<open>::tolower\<close> in the C locale\<close>
  "tolower_c c = (if 65 \<le> (of_char c :: nat) \<and> (of_char c :: nat) \<le> 90
                  then char_of ((of_char c :: nat) + 32) else c)"

definition isspace_c :: "char \<Rightarrow> bool" where
  "isspace_c c \<longleftrightarrow> (of_char c :: nat) = 32 \<or> (9 \<le> (of_char c :: nat) \<and> (of_char c :: nat) \<le> 13)"

definition isdigit_c :: "char \<Rightarrow> bool" where
  "isdigit_c c \<longleftrightarrow> 48 \<le> (of_char c :: nat) \<and> (of_char c :: nat) \<le> 57"

definition digit_char :: "nat \<Rightarrow> char" where
  "digit_char d = char_of (48 + d)"

definition digit_val :: "char \<Rightarrow> nat" where
  "digit_val c = (of_char c :: nat) - 48"

fun dec_nat :: "nat \<Rightarrow> string" where
  "dec_nat n = (if n < 10 then [digit_char n] else dec_nat (n div 10) @ [digit_char (n mod 10)])"

declare dec_nat.simps [simp del]

definition to_string_int :: "int \<Rightarrow> string" where
  \<comment> \<open>\<open>std::to_string(int)\<close>\<close>
  "to_string_int i = (if i < 0 then CHR ''-'' # dec_nat (nat (- i)) else dec_nat (nat i))"

definition digits_value :: "string \<Rightarrow> nat" where
  "digits_value ds = foldl (\<lambda>acc c. 10 * acc + digit_val c) 0 ds"

definition INT_MIN :: int where "INT_MIN = - 2147483648"
definition INT_MAX :: int where "INT_MAX = 2147483647"

definition strip_sign :: "string \<Rightarrow> bool \<times> string" where
  "strip_sign s = (case s of [] \<Rightarrow> (False, [])
                   | c # r \<Rightarrow> if c = CHR ''-'' then (True, r)
                             else if c = CHR ''+'' then (False, r) else (False, s))"

definition stoi :: "string \<Rightarrow> exn + int" where
  \<comment> \<open>\<open>std::stoi(s)\<close>: \<open>strtol\<close> in base 10 skips white space, reads a sign and the longest
      run of digits, and ignores what follows; no digit throws \<open>std::invalid_argument\<close>, a
      value outside \<open>int\<close> throws \<open>std::out_of_range\<close>\<close>
  "stoi s =
     (let (neg, s2) = strip_sign (dropWhile isspace_c s);
          ds = takeWhile isdigit_c s2
      in if ds = [] then Inl invalid_argument
         else let v = (if neg then - int (digits_value ds) else int (digits_value ds))
              in if v < INT_MIN \<or> INT_MAX < v then Inl out_of_range else Inr v)"

section \<open>URL\<close>

record URL =
  scheme :: string
  host :: string
  port :: int
  path :: string
  query :: string

definition URL_parse :: "string \<Rightarrow> exn + URL option" where
  \<comment> \<open>\<open>URL::parse\<close>: \<open>Inr None\<close> is \<open>std::nullopt\<close>, \<open>Inl e\<close> an exception that leaves the
      function\<close>
  "URL_parse url =
     (case find_str ''://'' url of
        None \<Rightarrow> Inr None
      | Some scheme_end \<Rightarrow>
          let sch = map tolower_c (substr url 0 scheme_end);
              pos = scheme_end + 3;
              path_start = find_char url (CHR ''/'') pos;
              query_start = find_char url (CHR ''?'') pos;
              host_end = (case npos_min path_start query_start of
                            None \<Rightarrow> length url | Some e \<Rightarrow> e);
              host_port = substr url pos (host_end - pos);
              path_query =
                (case path_start of
                   Some ps \<Rightarrow>
                     (case query_start of
                        Some qs \<Rightarrow>
                          if ps < qs then (substr url ps (qs - ps), substr_from url (qs + 1))
                          else (substr_from url ps, [])
                      | None \<Rightarrow> (substr_from url ps, []))
                 | None \<Rightarrow>
                     (case query_start of
                        Some qs \<Rightarrow> (''/'', substr_from url (qs + 1))
                      | None \<Rightarrow> (''/'', [])))
          in case find_first (CHR '':'') host_port of
               Some port_delim \<Rightarrow>
                 (case stoi (substr_from host_port (port_delim + 1)) of
                    Inl e \<Rightarrow> Inl e
                  | Inr p \<Rightarrow>
                      Inr (Some \<lparr>scheme = sch, host = substr host_port 0 port_delim, port = p,
                                 path = fst path_query, query = snd path_query\<rparr>))
             | None \<Rightarrow>
                 Inr (Some \<lparr>scheme = sch, host = host_port,
                            port = (if sch = ''https'' then 443 else 80),
                            path = fst path_query, query = snd path_query\<rparr>))"

definition URL_to_string :: "URL \<Rightarrow> string" where
  \<comment> \<open>\<open>URL::to_string\<close>\<close>
  "URL_to_string u =
     scheme u @ ''://'' @ host u
     @ (if (scheme u = ''http'' \<and> port u \<noteq> 80) \<or> (scheme u = ''https'' \<and> port u \<noteq> 443)
        then '':'' @ to_string_int (port u) else [])
     @ path u
     @ (if query u \<noteq> [] then ''?'' @ query u else [])"

definition wf_URL :: "URL \<Rightarrow> bool" where
  \<comment> \<open>what every value returned by \<open>URL_parse\<close> satisfies (\<open>URL_parse_wf\<close> below)\<close>
  "wf_URL u \<longleftrightarrow>
     find_str ''://'' (scheme u @ ''://'') = Some (length (scheme u))
     \<and> map tolower_c (scheme u) = scheme u
     \<and> CHR '':'' \<notin> set (host u) \<and> CHR ''/'' \<notin> set (host u) \<and> CHR ''?'' \<notin> set (host u)
     \<and> path u \<noteq> [] \<and> hd (path u) = CHR ''/''
     \<and> INT_MIN \<le> port u \<and> port u \<le> INT_MAX"

section \<open>Requests, responses and statistics\<close>

text \<open>
  Bodies are byte strings. The timing fields (\<open>timeout\<close>, \<open>retry_delay\<close>, \<open>elapsed_time\<close>) and
  the latency counters of \<open>Statistics\<close> are left out: no definition below reads them.
\<close>

record Request =
  req_method :: string
  url :: URL
  req_headers :: "(string \<times> string) list"
  req_body :: string
  follow_redirects :: bool
  max_redirects :: int
  max_retries :: int
  exponential_backoff :: bool

record Response =
  status_code :: int
  status_message :: string
  headers :: "(string \<times> string) list"
  body :: string
  redirect_count :: int
  bytes_received :: nat

definition Response_default :: Response where
  \<comment> \<open>a value-initialised \<open>Response\<close>\<close>
  "Response_default = \<lparr>status_code = 0, status_message = [], headers = [], body = [],
                         redirect_count = 0, bytes_received = 0\<rparr>"

record Statistics =
  total_requests :: nat
  total_errors :: nat
  total_bytes_received :: nat
  connections_created :: nat
  connections_reused :: nat
  error_counts :: "string \<Rightarrow> nat"

definition Statistics_init :: Statistics where
  "Statistics_init = \<lparr>total_requests = 0, total_errors = 0, total_bytes_received = 0,
                        connections_created = 0, connections_reused = 0,
                        error_counts = (\<lambda>_. 0)\<rparr>"

definition record_request :: "nat \<Rightarrow> Statistics \<Rightarrow> Statistics" where
  "record_request n st = st\<lparr>total_requests := total_requests st + 1,
                             total_bytes_received := total_bytes_received st + n\<rparr>"

definition record_connection :: "bool \<Rightarrow> Statistics \<Rightarrow> Statistics" where
  "record_connection reused st =
     (if reused then st\<lparr>connections_reused := connections_reused st + 1\<rparr>
      else st\<lparr>connections_created := connections_created st + 1\<rparr>)"

definition record_error :: "string \<Rightarrow> Statistics \<Rightarrow> Statistics" where
  "record_error error_type st =
     st\<lparr>total_errors := total_errors st + 1,
        error_counts := (error_counts st)(error_type := error_counts st error_type + 1)\<rparr>"

section \<open>Connection pool\<close>

text \<open>
  A \<open>std::shared_ptr<PooledConnection>\<close> is a reference into a store of connection objects, so
  that the pool's vectors and an executor can hold the same object. \<open>closed\<close> lists the
  \<open>close(fd)\<close> calls made so far, oldest first.
\<close>

record PooledConnection =
  socket_fd :: int
  tls :: bool  \<comment> \<open>\<open>conn->tls != nullptr\<close>\<close>
  last_used :: int
  in_use :: bool

type_synonym conn_ref = nat
type_synonym PoolKey = "string \<times> int \<times> bool"

record ConnectionPool =
  max_connections :: int
  idle_timeout :: int  \<comment> \<open>seconds\<close>
  pools :: "(PoolKey \<times> conn_ref list) list"  \<comment> \<open>the \<open>std::map\<close> from key to vector\<close>

record world =
  pool :: ConnectionPool
  heap :: "conn_ref \<Rightarrow> PooledConnection option"
  next_ref :: conn_ref  \<comment> \<open>where \<open>std::make_shared\<close> puts the next object\<close>
  closed :: "int list"
  stats :: Statistics

definition ticks_per_second :: int where
  \<comment> \<open>\<open>steady_clock\<close> counts nanoseconds\<close>
  "ticks_per_second = 1000000000"

definition cdiv :: "int \<Rightarrow> int \<Rightarrow> int" where
  \<comment> \<open>integer division of C++, which truncates towards zero (the divisor is not 0)\<close>
  "cdiv a b = (if (a < 0) = (b < 0) then \<bar>a\<bar> div \<bar>b\<bar> else - (\<bar>a\<bar> div \<bar>b\<bar>))"

definition to_seconds :: "int \<Rightarrow> int" where
  \<comment> \<open>\<open>duration_cast<std::chrono::seconds>\<close>\<close>
  "to_seconds d = cdiv d ticks_per_second"

definition ConnectionPool_init :: "int \<Rightarrow> int \<Rightarrow> ConnectionPool" where
  "ConnectionPool_init mc it = \<lparr>max_connections = mc, idle_timeout = it, pools = []\<rparr>"

datatype probe_result = PeerClosed | WouldBlock | HardError | DataAvailable
  \<comment> \<open>\<open>recv(fd, buf, 1, MSG_PEEK | MSG_DONTWAIT)\<close>: 0; -1 with EAGAIN or EWOULDBLOCK; -1 with
      another errno; a positive count\<close>

definition dead :: "probe_result \<Rightarrow> bool" where
  "dead r \<longleftrightarrow> r = PeerClosed \<or> r = HardError"

definition erase_at :: "nat \<Rightarrow> 'a list \<Rightarrow> 'a list" where
  \<comment> \<open>\<open>v.erase(v.begin() + i)\<close>\<close>
  "erase_at i xs = take i xs @ drop (Suc i) xs"

fun acquire_loop ::
  "(int \<Rightarrow> probe_result) \<Rightarrow> int \<Rightarrow> nat \<Rightarrow> conn_ref list \<Rightarrow> world \<Rightarrow> conn_ref option \<times> conn_ref list \<times> world"
where
  \<comment> \<open>the loop \<open>for (i = size - 1; i >= 0; --i)\<close>; the third argument is \<open>i + 1\<close>\<close>
  "acquire_loop prb now 0 v w = (None, v, w)"
| "acquire_loop prb now (Suc i) v w =
     (case heap w (v ! i) of
        None \<Rightarrow> acquire_loop prb now i v w
      | Some c \<Rightarrow>
          if in_use c then acquire_loop prb now i v w
          else if dead (prb (socket_fd c))
          then acquire_loop prb now i (erase_at i v) (w\<lparr>closed := closed w @ [socket_fd c]\<rparr>)
          else (Some (v ! i), v,
                w\<lparr>heap := (heap w)(v ! i \<mapsto> c\<lparr>in_use := True, last_used := now\<rparr>)\<rparr>))"

definition set_pools :: "(PoolKey \<times> conn_ref list) list \<Rightarrow> world \<Rightarrow> world" where
  "set_pools ps w = w\<lparr>pool := (pool w)\<lparr>pools := ps\<rparr>\<rparr>"

definition pool_acquire ::
  "(int \<Rightarrow> probe_result) \<Rightarrow> int \<Rightarrow> string \<Rightarrow> int \<Rightarrow> bool \<Rightarrow> world \<Rightarrow> conn_ref option \<times> world"
where
  \<comment> \<open>\<open>ConnectionPool::acquire\<close>, with the clock reading \<open>now\<close>\<close>
  "pool_acquire prb now h p use_tls w =
     (case map_of (pools (pool w)) (h, p, use_tls) of
        None \<Rightarrow> (None, w)
      | Some v \<Rightarrow>
          (case acquire_loop prb now (length v) v w of
             (r, v', w') \<Rightarrow> (r, set_pools (AList.update (h, p, use_tls) v' (pools (pool w'))) w')))"

definition total_conns :: "(PoolKey \<times> conn_ref list) list \<Rightarrow> int" where
  "total_conns ps = (\<Sum>kv\<leftarrow>ps. int (length (snd kv)))"

definition pool_release :: "int \<Rightarrow> string \<Rightarrow> int \<Rightarrow> conn_ref option \<Rightarrow> world \<Rightarrow> world" where
  \<comment> \<open>\<open>ConnectionPool::release\<close>; \<open>None\<close> is a null pointer\<close>
  "pool_release now h p conn w =
     (case conn of
        None \<Rightarrow> w
      | Some r \<Rightarrow>
          (case heap w r of
             None \<Rightarrow> w
           | Some c \<Rightarrow>
               if socket_fd c < 0 then w
               else
                 let key = (h, p, tls c);
                     w1 = w\<lparr>heap := (heap w)(r \<mapsto> c\<lparr>in_use := False, last_used := now\<rparr>)\<rparr>;
                     ps = (case map_of (pools (pool w1)) key of
                             None \<Rightarrow> AList.update key [] (pools (pool w1))
                           | Some _ \<Rightarrow> pools (pool w1));
                     v = (case map_of ps key of None \<Rightarrow> [] | Some v \<Rightarrow> v)
                 in if max_connections (pool w1) \<le> total_conns ps
                    then set_pools ps (w1\<lparr>closed := closed w1 @ [socket_fd c]\<rparr>)
                    else set_pools (AList.update key (v @ [r]) ps) w1))"

fun remove_idle :: "int \<Rightarrow> int \<Rightarrow> conn_ref list \<Rightarrow> world \<Rightarrow> conn_ref list \<times> world" where
  \<comment> \<open>the \<open>remove_if\<close> and \<open>erase\<close> of \<open>cleanup_idle\<close> on one vector\<close>
  "remove_idle now it [] w = ([], w)"
| "remove_idle now it (r # rs) w =
     (case heap w r of
        None \<Rightarrow> (case remove_idle now it rs w of (keep, w') \<Rightarrow> (r # keep, w'))
      | Some c \<Rightarrow>
          if \<not> in_use c \<and> it \<le> to_seconds (now - last_used c)
          then remove_idle now it rs (w\<lparr>closed := closed w @ [socket_fd c]\<rparr>)
          else (case remove_idle now it rs w of (keep, w') \<Rightarrow> (r # keep, w')))"

fun cleanup_pools ::
  "int \<Rightarrow> int \<Rightarrow> (PoolKey \<times> conn_ref list) list \<Rightarrow> world \<Rightarrow> (PoolKey \<times> conn_ref list) list \<times> world"
where
  "cleanup_pools now it [] w = ([], w)"
| "cleanup_pools now it ((k, v) # rest) w =
     (case remove_idle now it v w of
        (v', w1) \<Rightarrow> (case cleanup_pools now it rest w1 of (rest', w2) \<Rightarrow> ((k, v') # rest', w2)))"

definition cleanup_idle :: "int \<Rightarrow> world \<Rightarrow> world" where
  \<comment> \<open>\<open>ConnectionPool::cleanup_idle\<close>; the keys are visited in the order of the association
      list (\<open>std::map\<close>: key order), which only bears on the order of the closes\<close>
  "cleanup_idle now w =
     (case cleanup_pools now (idle_timeout (pool w)) (pools (pool w)) w of
        (ps, w') \<Rightarrow> set_pools ps w')"

definition pool_destroy :: "world \<Rightarrow> world" where
  \<comment> \<open>\<open>ConnectionPool::~ConnectionPool\<close>: every stored connection with \<open>socket_fd >= 0\<close> is closed.
      The keys are visited in the order of the association list; \<open>std::map\<close> visits them in
      key order, so the closes of different keys may come in another order.\<close>
  "pool_destroy w =
     w\<lparr>closed := closed w @
          concat (map (\<lambda>kv. concat (map (\<lambda>r. case heap w r of
                                               None \<Rightarrow> []
                                             | Some c \<Rightarrow> if 0 \<le> socket_fd c then [socket_fd c] else [])
                                     (snd kv)))
                      (pools (pool w)))\<rparr>"

datatype pool_op =
    Acquire int string int bool
  | Release int string int "conn_ref option"
  | CleanupIdle int
  | Store conn_ref PooledConnection  \<comment> \<open>an executor creates or overwrites a connection object\<close>

fun pool_step :: "(int \<Rightarrow> probe_result) \<Rightarrow> pool_op \<Rightarrow> world \<Rightarrow> world" where
  "pool_step prb (Acquire now h p t) w = snd (pool_acquire prb now h p t w)"
| "pool_step prb (Release now h p c) w = pool_release now h p c w"
| "pool_step prb (CleanupIdle now) w = cleanup_idle now w"
| "pool_step prb (Store r c) w = w\<lparr>heap := (heap w)(r \<mapsto> c)\<rparr>"

definition pool_run :: "(int \<Rightarrow> probe_result) \<Rightarrow> pool_op list \<Rightarrow> world \<Rightarrow> world" where
  "pool_run prb ops w = fold (pool_step prb) ops w"

definition world_init :: "int \<Rightarrow> int \<Rightarrow> world" where
  \<comment> \<open>a client whose pool was built by \<open>ConnectionPool(mc, it)\<close>\<close>
  "world_init mc it = \<lparr>pool = ConnectionPool_init mc it, heap = (\<lambda>_. None), next_ref = 0,
                        closed = [], stats = Statistics_init\<rparr>"

section \<open>Request executor\<close>

text \<open>
  What the network does is a parameter: the answers to the liveness probe, to \<open>getaddrinfo\<close>,
  to each connection attempt, to the TLS handshake and to \<open>send\<close>, and the response that
  \<open>read_response\<close> and \<open>parse_response\<close> deliver for a request. The bytes of the request
  and the rate limiter (built with rate 0, whose \<open>acquire\<close> returns at once) do not touch
  the connection and are left out.
\<close>

datatype dial_result =
    NoSocket  \<comment> \<open>\<open>socket()\<close> failed\<close>
  | Refused int  \<comment> \<open>the socket was made; \<open>poll\<close> timed out or \<open>SO_ERROR\<close> is set\<close>
  | Connected int

record net =
  probe :: "int \<Rightarrow> probe_result"
  getaddrinfo :: "string \<Rightarrow> int \<Rightarrow> nat list"  \<comment> \<open>empty on failure\<close>
  dial :: "nat \<Rightarrow> dial_result"
  tls_handshake :: "int \<Rightarrow> string \<Rightarrow> bool"
  send_result :: "int \<Rightarrow> int"  \<comment> \<open>what sending the request on a descriptor returns\<close>
  exchange :: "Request \<Rightarrow> exn + Response"
    \<comment> \<open>\<open>Inl\<close>: \<open>std::stoi\<close> on the status line or \<open>std::stoull\<close> on a chunk size throws in
        \<open>parse_response\<close>\<close>
  clock :: int

fun dial_loop :: "(nat \<Rightarrow> dial_result) \<Rightarrow> nat list \<Rightarrow> int list \<Rightarrow> int \<times> int list" where
  \<comment> \<open>the loop over the address list; returns \<open>fd\<close> (-1 when none connected) and the closes\<close>
  "dial_loop d [] cl = (- 1, cl)"
| "dial_loop d (ai # rest) cl =
     (case d ai of
        NoSocket \<Rightarrow> dial_loop d rest cl
      | Refused sfd \<Rightarrow> dial_loop d rest (cl @ [sfd])
      | Connected sfd \<Rightarrow> (sfd, cl))"

definition failed :: "string \<Rightarrow> world \<Rightarrow> Response \<times> world" where
  \<comment> \<open>the early returns: a response with status 0 and a recorded error kind\<close>
  "failed kind w = (Response_default\<lparr>status_code := 0\<rparr>, w\<lparr>stats := record_error kind (stats w)\<rparr>)"

definition new_connection ::
  "net \<Rightarrow> Request \<Rightarrow> bool \<Rightarrow> world \<Rightarrow> (Response \<times> world) + (conn_ref \<times> world)"
where
  \<comment> \<open>the branch \<open>if (!conn)\<close>: \<open>Inl\<close> is an early return of \<open>execute_request\<close>\<close>
  "new_connection env req use_tls w =
     (case dial_loop (dial env) (getaddrinfo env (host (url req)) (port (url req))) (closed w) of
        (fd, cl) \<Rightarrow>
          let w1 = w\<lparr>closed := cl\<rparr> in
          if fd < 0 then Inl (failed ''connection_failed'' w1)
          else
            let r = next_ref w1;
                w2 = w1\<lparr>heap := (heap w1)(r \<mapsto> \<lparr>socket_fd = fd, tls = use_tls,
                                                    last_used = 0, in_use = True\<rparr>),
                        next_ref := Suc r\<rparr>
            in if use_tls \<and> \<not> tls_handshake env fd (host (url req))
               then Inl (failed ''tls_handshake_failed'' (w2\<lparr>closed := closed w2 @ [fd]\<rparr>))
               else Inr (r, w2\<lparr>stats := record_connection False (stats w2)\<rparr>))"

function execute_request :: "net \<Rightarrow> Request \<Rightarrow> world \<Rightarrow> exn + (Response \<times> world)" where
  \<comment> \<open>\<open>HTTPClient::Impl::execute_request\<close>; \<open>Inl\<close> is an exception that leaves the function:
      of \<open>parse_response\<close> (before the connection is released) or of \<open>URL::parse\<close> on the
      \<open>Location\<close> header\<close>
  "execute_request env req w =
     (let use_tls = (scheme (url req) = ''https'');
          acq = pool_acquire (probe env) (clock env) (host (url req)) (port (url req)) use_tls w;
          got = (case fst acq of
                   None \<Rightarrow> new_connection env req use_tls (snd acq)
                 | Some r \<Rightarrow>
                     Inr (r, (snd acq)\<lparr>stats := record_connection True (stats (snd acq))\<rparr>))
      in case got of
           Inl early \<Rightarrow> Inr early
         | Inr (r, w2) \<Rightarrow>
             let fd = (case heap w2 r of Some c \<Rightarrow> socket_fd c | None \<Rightarrow> - 1) in
             if send_result env fd < 0
             then Inr (failed ''send_failed'' (w2\<lparr>closed := closed w2 @ [fd]\<rparr>))
             else
               (case exchange env req of
                  Inl e \<Rightarrow> Inl e
                | Inr resp \<Rightarrow>
               let w3 = pool_release (clock env) (host (url req)) (port (url req)) (Some r) w2;
                   w4 = w3\<lparr>stats := record_request (bytes_received resp) (stats w3)\<rparr>
               in if follow_redirects req \<and> 300 \<le> status_code resp \<and> status_code resp < 400
                  then (case map_of (headers resp) ''Location'' of
                          None \<Rightarrow> Inr (resp, w4)
                        | Some loc \<Rightarrow>
                            if 0 < max_redirects req
                            then (case URL_parse loc of
                                    Inl e \<Rightarrow> Inl e
                                  | Inr None \<Rightarrow> Inr (resp, w4)
                                  | Inr (Some new_url) \<Rightarrow>
                                      (case execute_request env
                                              (req\<lparr>url := new_url,
                                                   max_redirects := max_redirects req - 1\<rparr>) w4 of
                                         Inl e \<Rightarrow> Inl e
                                       | Inr (resp', w5) \<Rightarrow>
                                           Inr (resp'\<lparr>redirect_count := redirect_count resp' + 1\<rparr>,
                                                w5)))
                            else Inr (resp, w4))
                  else Inr (resp, w4)))"
  by pat_completeness auto
termination
  by (relation "measure (\<lambda>(env, req, w). nat (max_redirects req))") auto

declare execute_request.simps [simp del]

section \<open>Retry wrapper\<close>

type_synonym executor = "world \<Rightarrow> exn + (Response \<times> world)"

function retry_loop ::
  "executor \<Rightarrow> int \<Rightarrow> int \<Rightarrow> world \<Rightarrow> exn + (Response option \<times> int \<times> world)"
where
  \<comment> \<open>the \<open>while\<close> loop of \<open>execute_with_retry\<close>; returns the response of the \<open>return\<close> inside
      the loop (if it was taken), the final value of \<open>attempts\<close> and the state. The \<open>sleep_for\<close>
      between attempts changes nothing here.\<close>
  "retry_loop exec max_attempts attempts w =
     (if attempts < max_attempts
      then (case exec w of
              Inl e \<Rightarrow> Inl e
            | Inr (resp, w1) \<Rightarrow>
                if 0 < status_code resp \<and> status_code resp < 500
                then Inr (Some resp, attempts, w1)
                else
                  let attempts' = attempts + 1;
                      w2 = (if attempts' < max_attempts
                            then w1\<lparr>stats := record_error ''retry'' (stats w1)\<rparr> else w1)
                  in retry_loop exec max_attempts attempts' w2)
      else Inr (None, attempts, w))"
  by pat_completeness auto
termination
  by (relation "measure (\<lambda>(exec, max_attempts, attempts, w). nat (max_attempts - attempts))") auto

declare retry_loop.simps [simp del]

definition execute_with_retry :: "executor \<Rightarrow> Request \<Rightarrow> world \<Rightarrow> exn + (Response \<times> world)" where
  \<comment> \<open>\<open>HTTPClient::Impl::execute_with_retry\<close> over the executor \<open>exec\<close>\<close>
  "execute_with_retry exec req w =
     (case retry_loop exec (max_retries req + 1) 0 w of
        Inl e \<Rightarrow> Inl e
      | Inr (Some resp, _, w') \<Rightarrow> Inr (resp, w')
      | Inr (None, _, w') \<Rightarrow>
          Inr (Response_default\<lparr>status_code := 0\<rparr>,
               w'\<lparr>stats := record_error ''max_retries_exceeded'' (stats w')\<rparr>))"

definition request_with :: "executor \<Rightarrow> Request \<Rightarrow> world \<Rightarrow> exn + (Response \<times> world)" where
  \<comment> \<open>\<open>HTTPClient::request\<close> over the executor \<open>exec\<close>\<close>
  "request_with exec req w =
     (if 0 < max_retries req then execute_with_retry exec req w else exec w)"

definition request :: "net \<Rightarrow> Request \<Rightarrow> world \<Rightarrow> exn + (Response \<times> world)" where
  "request env req w = request_with (execute_request env req) req w"

section \<open>Batch executor\<close>

text \<open>
  A future is the index it was launched for; \<open>result_of i\<close> is the response that the future
  of \<open>requests[i]\<close> delivers to \<open>get()\<close>, whenever its thread finishes.
\<close>

definition size_t_of_int :: "int \<Rightarrow> nat" where
  \<comment> \<open>\<open>static_cast<size_t>\<close> of an \<open>int\<close>, with 64-bit \<open>size_t\<close>\<close>
  "size_t_of_int i = nat (i mod 2 ^ 64)"

function launch :: "nat \<Rightarrow> nat \<Rightarrow> nat list \<Rightarrow> nat \<Rightarrow> nat list \<times> nat" where
  \<comment> \<open>the inner \<open>while\<close>: start futures until \<open>max_parallel\<close> are in flight\<close>
  "launch P N futures idx =
     (if length futures < P \<and> idx < N then launch P N (futures @ [idx]) (Suc idx)
      else (futures, idx))"
  by pat_completeness auto
termination
  by (relation "measure (\<lambda>(P, N, futures, idx). N - idx)") auto

declare launch.simps [simp del]

partial_function (option) batch_loop ::
  "(nat \<Rightarrow> Response) \<Rightarrow> nat \<Rightarrow> nat \<Rightarrow> nat list \<Rightarrow> nat \<Rightarrow> Response list
     \<Rightarrow> (nat list \<times> Response list) option"
where
  \<comment> \<open>the outer \<open>while (idx < requests.size())\<close>; \<open>None\<close> when it never ends\<close>
  "batch_loop result_of P N futures idx responses =
     (if idx < N
      then (case launch P N futures idx of
              (fs, idx') \<Rightarrow>
                if fs \<noteq> []
                then batch_loop result_of P N (tl fs) idx'
                       (responses[length responses - length fs := result_of (hd fs)])
                else batch_loop result_of P N fs idx' responses)
      else Some (futures, responses))"

declare batch_loop.simps [code]

definition wait_remaining :: "(nat \<Rightarrow> Response) \<Rightarrow> nat list \<Rightarrow> Response list \<Rightarrow> Response list" where
  \<comment> \<open>the final \<open>for (auto& future : futures)\<close>, which erases nothing\<close>
  "wait_remaining result_of futures responses =
     fold (\<lambda>f rs. rs[length rs - length futures := result_of f]) futures responses"

definition batch_request :: "(nat \<Rightarrow> Response) \<Rightarrow> nat \<Rightarrow> int \<Rightarrow> Response list option" where
  \<comment> \<open>\<open>HTTPClient::batch_request\<close> on \<open>N\<close> requests\<close>
  "batch_request result_of N max_parallel =
     (case batch_loop result_of (size_t_of_int max_parallel) N [] 0 (replicate N Response_default) of
        None \<Rightarrow> None
      | Some (futures, responses) \<Rightarrow> Some (wait_remaining result_of futures responses))"

section \<open>DNS cache\<close>

type_synonym sockaddr_storage = string

record CachedAddress =
  addresses :: "sockaddr_storage list"
  cached_at :: int
  ttl :: int  \<comment> \<open>seconds\<close>

record DNSCache =
  cache :: "string \<Rightarrow> CachedAddress option"
  default_ttl :: int
  hits :: nat
  misses :: nat

definition DNSCache_init :: "int \<Rightarrow> DNSCache" where
  "DNSCache_init t = \<lparr>cache = (\<lambda>_. None), default_ttl = t, hits = 0, misses = 0\<rparr>"

definition make_key :: "string \<Rightarrow> int \<Rightarrow> string" where
  "make_key h p = h @ '':'' @ to_string_int p"

definition resolve ::
  "string \<Rightarrow> int \<Rightarrow> int \<Rightarrow> sockaddr_storage list \<Rightarrow> int \<Rightarrow> DNSCache
     \<Rightarrow> sockaddr_storage list \<times> DNSCache"
where
  \<comment> \<open>\<open>DNSCache::resolve\<close>: \<open>now\<close> is the clock at the lookup, \<open>resolved\<close> what \<open>do_resolve\<close>
      returns if it is called, \<open>now'\<close> the clock when the entry is stored\<close>
  "resolve h p now resolved now' d =
     (let key = make_key h p;
          fresh = (case cache d key of
                     None \<Rightarrow> None
                   | Some e \<Rightarrow> if to_seconds (now - cached_at e) < ttl e then Some e else None)
      in case fresh of
           Some e \<Rightarrow> (addresses e, d\<lparr>hits := hits d + 1\<rparr>)
         | None \<Rightarrow>
             let d1 = d\<lparr>cache := (cache d)(key := None), misses := misses d + 1\<rparr>
             in if resolved \<noteq> []
                then (resolved,
                      d1\<lparr>cache := (cache d1)(key \<mapsto> \<lparr>addresses = resolved, cached_at = now',
                                                        ttl = default_ttl d1\<rparr>)\<rparr>)
                else (resolved, d1))"

section \<open>Rate limiter\<close>

text \<open>
  \<open>rate\<close> is a \<open>double\<close> in the source and a real number here; the two conversions of it to
  integers truncate, without the rounding of \<open>1e9 / rate\<close> in floating point and without
  what a cast does to a value outside the target type. A token is the time stamp at which
  it was made.
\<close>

record RateLimiter =
  rate :: real
  burst :: nat
  interval :: int  \<comment> \<open>nanoseconds\<close>
  tokens :: "int list"
  last_refill :: int

definition size_t_of_real :: "real \<Rightarrow> nat" where
  "size_t_of_real r = nat \<lfloor>r\<rfloor>"

definition RateLimiter_init :: "real \<Rightarrow> nat \<Rightarrow> int \<Rightarrow> RateLimiter" where
  \<comment> \<open>the constructor, called when the clock reads \<open>now\<close>\<close>
  "RateLimiter_init requests_per_second b now =
     \<lparr>rate = requests_per_second,
      burst = (if b = 0 then size_t_of_real requests_per_second else b),
      interval = (if 0 < requests_per_second then \<lfloor>1000000000 / requests_per_second\<rfloor> else 0),
      tokens = [], last_refill = now\<rparr>"

function refill_loop :: "nat \<Rightarrow> int \<Rightarrow> int \<Rightarrow> int list \<Rightarrow> int list" where
  \<comment> \<open>\<open>while (tokens_.size() < burst_ && tokens_to_add > 0)\<close>\<close>
  "refill_loop b now tokens_to_add ts =
     (if length ts < b \<and> 0 < tokens_to_add then refill_loop b now (tokens_to_add - 1) (ts @ [now])
      else ts)"
  by pat_completeness auto
termination
  by (relation "measure (\<lambda>(b, now, tokens_to_add, ts). nat tokens_to_add)") auto

declare refill_loop.simps [simp del]

definition refill :: "int \<Rightarrow> RateLimiter \<Rightarrow> RateLimiter option" where
  \<comment> \<open>\<open>RateLimiter::refill\<close>; \<open>None\<close> is the division by an interval of 0\<close>
  "refill now l =
     (if rate l \<le> 0 then Some l
      else if interval l = 0 then None
      else
        let tokens_to_add = cdiv (now - last_refill l) (interval l)
        in if 0 < tokens_to_add
           then Some (l\<lparr>tokens := refill_loop (burst l) now tokens_to_add (tokens l),
                        last_refill := now\<rparr>)
           else Some l)"

datatype 'a waited = Returned 'a | Waiting 'a | Trapped

fun acquire_wait :: "int list \<Rightarrow> RateLimiter \<Rightarrow> RateLimiter waited" where
  \<comment> \<open>the \<open>while (true)\<close> of \<open>acquire\<close>, one clock reading for each round; \<open>Waiting\<close> is the
      limiter still asleep after the last reading\<close>
  "acquire_wait [] l = Waiting l"
| "acquire_wait (now # later) l =
     (case refill now l of
        None \<Rightarrow> Trapped
      | Some l1 \<Rightarrow>
          if tokens l1 \<noteq> [] then Returned (l1\<lparr>tokens := tl (tokens l1)\<rparr>)
          else acquire_wait later l1)"

definition limiter_acquire :: "int list \<Rightarrow> RateLimiter \<Rightarrow> RateLimiter waited" where
  \<comment> \<open>\<open>RateLimiter::acquire\<close>\<close>
  "limiter_acquire readings l = (if rate l \<le> 0 then Returned l else acquire_wait readings l)"

definition try_acquire :: "int \<Rightarrow> RateLimiter \<Rightarrow> (bool \<times> RateLimiter) option" where
  \<comment> \<open>\<open>RateLimiter::try_acquire\<close>\<close>
  "try_acquire now l =
     (if rate l \<le> 0 then Some (True, l)
      else (case refill now l of
              None \<Rightarrow> None
            | Some l1 \<Rightarrow>
                if tokens l1 \<noteq> [] then Some (True, l1\<lparr>tokens := tl (tokens l1)\<rparr>)
                else Some (False, l1)))"

definition set_rate :: "real \<Rightarrow> nat \<Rightarrow> int \<Rightarrow> RateLimiter \<Rightarrow> RateLimiter" where
  \<comment> \<open>\<open>RateLimiter::set_rate\<close>\<close>
  "set_rate requests_per_second b now l =
     l\<lparr>rate := requests_per_second,
       burst := (if b = 0 then size_t_of_real requests_per_second else b),
       interval := (if 0 < requests_per_second then \<lfloor>1000000000 / requests_per_second\<rfloor>
                    else interval l),
       tokens := [], last_refill := now\<rparr>"

inductive limiter_reachable :: "RateLimiter \<Rightarrow> bool" where
  \<comment> \<open>the states of a limiter after its construction and any operations\<close>
  constructed: "limiter_reachable (RateLimiter_init r b now)"
| refilled: "limiter_reachable l \<Longrightarrow> refill now l = Some l' \<Longrightarrow> limiter_reachable l'"
| acquired: "limiter_reachable l \<Longrightarrow> limiter_acquire readings l = Returned l' \<Longrightarrow> limiter_reachable l'"
| waiting: "limiter_reachable l \<Longrightarrow> limiter_acquire readings l = Waiting l' \<Longrightarrow> limiter_reachable l'"
| tried: "limiter_reachable l \<Longrightarrow> try_acquire now l = Some (ok, l') \<Longrightarrow> limiter_reachable l'"
| rate_set: "limiter_reachable l \<Longrightarrow> limiter_reachable (set_rate r b now l)"

section \<open>Parallel segmented download\<close>

definition size_t :: "int \<Rightarrow> nat" where
  \<comment> \<open>arithmetic in \<open>size_t\<close> is modulo \<open>2 ^ 64\<close>\<close>
  "size_t i = nat (i mod 2 ^ 64)"

definition range_header :: "nat \<Rightarrow> nat \<Rightarrow> nat \<Rightarrow> string" where
  \<comment> \<open>the \<open>Range\<close> header of pipe \<open>i\<close>\<close>
  "range_header segment_size num_pipes i =
     (let start_byte = size_t (int i * int segment_size)
      in if int i = int num_pipes - 1
         then ''bytes='' @ dec_nat start_byte @ ''-''
         else let end_byte = size_t ((int i + 1) * int segment_size - 1)
              in ''bytes='' @ dec_nat start_byte @ ''-'' @ dec_nat end_byte)"

function fetch_attempts :: "(nat \<Rightarrow> Response) \<Rightarrow> nat \<Rightarrow> Response" where
  \<comment> \<open>the \<open>do ... while (resp.status_code != 206 && retries < MAX_RETRIES)\<close> of a worker;
      \<open>attempt k\<close> is the response to its request number \<open>k\<close>\<close>
  "fetch_attempts attempt retries =
     (let resp = attempt retries
      in if status_code resp \<noteq> 206 \<and> Suc retries < 3 then fetch_attempts attempt (Suc retries)
         else resp)"
  by pat_completeness auto
termination
  by (relation "measure (\<lambda>(attempt, retries). 3 - retries)") auto

declare fetch_attempts.simps [simp del]

definition worker_part :: "(string \<Rightarrow> nat \<Rightarrow> Response) \<Rightarrow> nat \<Rightarrow> nat \<Rightarrow> nat \<Rightarrow> string" where
  \<comment> \<open>what worker \<open>i\<close> leaves in \<open>parts[i]\<close>; \<open>server hdr k\<close> answers request number \<open>k\<close> that
      carries the \<open>Range\<close> header \<open>hdr\<close>\<close>
  "worker_part server segment_size num_pipes i =
     (let resp = fetch_attempts (server (range_header segment_size num_pipes i)) 0
      in if status_code resp = 206 then body resp else [])"

definition parallel_download ::
  "string \<Rightarrow> nat \<Rightarrow> int \<Rightarrow> (string \<Rightarrow> nat \<Rightarrow> Response) \<Rightarrow> exn + string"
where
  \<comment> \<open>\<open>parallel_download\<close>; an exception of \<open>URL::parse\<close> in a worker is \<open>Inl\<close>\<close>
  "parallel_download url_str content_length num_pipes server =
     (if num_pipes < 2 \<or> content_length = 0 then Inr []
      else
        let segment_size = content_length div nat num_pipes
        in case URL_parse url_str of
             Inl e \<Rightarrow> Inl e
           | Inr None \<Rightarrow> Inr (concat (map (\<lambda>i. []) [0..<nat num_pipes]))
           | Inr (Some _) \<Rightarrow>
               Inr (concat (map (worker_part server segment_size (nat num_pipes))
                                [0..<nat num_pipes])))"

section \<open>A server that always answers 503\<close>

definition get_h :: Request where
  \<comment> \<open>GET \<open>http://h/\<close> with \<open>max_retries = 2\<close>\<close>
  "get_h = \<lparr>req_method = ''GET'',
            url = \<lparr>scheme = ''http'', host = ''h'', port = 80, path = ''/'', query = []\<rparr>,
            req_headers = [], req_body = [], follow_redirects = False, max_redirects = 10,
            max_retries = 2, exponential_backoff = True\<rparr>"

definition server_503 :: net where
  \<comment> \<open>every connection attempt succeeds on descriptor 7 and every request is answered 503\<close>
  "server_503 = \<lparr>probe = (\<lambda>_. WouldBlock), getaddrinfo = (\<lambda>_ _. [0]), dial = (\<lambda>_. Connected 7),
                 tls_handshake = (\<lambda>_ _. True), send_result = (\<lambda>_. 1),
                 exchange = (\<lambda>_. Inr (Response_default\<lparr>status_code := 503\<rparr>)), clock = 0\<rparr>"

definition send_fails :: net where
  \<comment> \<open>the same network when every \<open>send\<close> returns -1\<close>
  "send_fails = server_503\<lparr>send_result := (\<lambda>_. - 1)\<rparr>"

definition after_first_request :: world where
  \<comment> \<open>a new client (its pool is \<open>ConnectionPool(200, 90s)\<close>) after one request\<close>
  "after_first_request = snd (projr (execute_request server_503 get_h (world_init 200 90)))"

section \<open>A server that honours byte ranges\<close>

definition serve_range :: "string \<Rightarrow> string \<Rightarrow> nat \<Rightarrow> Response" where
  \<comment> \<open>answers \<open>bytes=A-B\<close> and \<open>bytes=A-\<close> with status 206 and the bytes of \<open>content\<close> in
      that range, a last position beyond the end meaning the end\<close>
  "serve_range content hdr k =
     (let spec = drop 6 hdr;
          first_pos = digits_value (takeWhile isdigit_c spec);
          last_text = drop 1 (dropWhile isdigit_c spec)
      in Response_default\<lparr>status_code := 206,
           body := (if last_text = [] then drop first_pos content
                    else take (digits_value last_text + 1 - first_pos) (drop first_pos content))\<rparr>)"

section \<open>Properties of the string functions\<close>

lemma find_first_None_iff: "find_first c s = None \<longleftrightarrow> c \<notin> set s"
  by (induction s) auto

lemma find_first_append_notin:
  "c \<notin> set a \<Longrightarrow> find_first c (a @ b) = map_option (\<lambda>i. length a + i) (find_first c b)"
proof (induction a)
  case Nil
  show ?case by (cases "find_first c b") auto
next
  case (Cons x a)
  then show ?case by (cases "find_first c b") auto
qed

lemma find_first_hit: "c \<notin> set a \<Longrightarrow> find_first c (a @ c # r) = Some (length a)"
  by (simp add: find_first_append_notin)

lemma find_first_Some_split:
  "find_first c s = Some i \<Longrightarrow> c \<notin> set (take i s) \<and> i < length s \<and> s ! i = c"
  by (induction s arbitrary: i) (auto split: if_splits)

lemma find_str_Some_split:
  "find_str pat s = Some n \<Longrightarrow> take (length pat) (drop n s) = pat \<and> n + length pat \<le> length s"
proof (induction s arbitrary: n)
  case Nil
  then show ?case by (auto split: if_splits)
next
  case (Cons x xs)
  show ?case
  proof (cases "take (length pat) (x # xs) = pat")
    case True
    with Cons.prems have "n = 0" by simp
    moreover have "length pat \<le> length (x # xs)"
    proof -
      have "length (take (length pat) (x # xs)) = length pat" using True by simp
      then show ?thesis by simp
    qed
    ultimately show ?thesis using True by simp
  next
    case False
    with Cons.prems obtain m where "find_str pat xs = Some m" "n = Suc m" by auto
    with Cons.IH show ?thesis by simp
  qed
qed

lemma find_str_drop_tail: "find_str pat (a @ pat @ r) = find_str pat (a @ pat)"
proof (induction a)
  case Nil
  show ?case by (cases pat; cases r) auto
next
  case (Cons x a)
  have "take (length pat) ((x # a @ pat) @ r) = take (length pat) (x # a @ pat)"
    by (subst take_append) simp
  with Cons show ?case by simp
qed

lemma find_str_prefix_part:
  assumes "find_str pat s = Some n"
  shows "find_str pat (take n s @ pat) = Some n"
proof -
  from find_str_Some_split [OF assms]
  have t: "take (length pat) (drop n s) = pat" and l: "n + length pat \<le> length s" by auto
  have "drop n s = take (length pat) (drop n s) @ drop (length pat) (drop n s)"
    by (rule append_take_drop_id [symmetric])
  then have "drop n s = pat @ drop (length pat) (drop n s)" using t by simp
  then have "drop n s = pat @ drop (n + length pat) s" by (simp add: add.commute)
  then have s: "s = take n s @ pat @ drop (n + length pat) s"
    by (metis append_take_drop_id)
  have "find_str pat (take n s @ pat @ drop (n + length pat) s) = Some n" using s assms by simp
  then show ?thesis by (simp add: find_str_drop_tail)
qed

lemma map_sep_eq:
  assumes "\<And>c. f c = CHR '':'' \<longleftrightarrow> c = CHR '':''" "\<And>c. f c = CHR ''/'' \<longleftrightarrow> c = CHR ''/''"
  shows "map f w = ''://'' \<longleftrightarrow> w = ''://''"
  using assms by (auto simp: map_eq_Cons_conv)

lemma find_str_map:
  assumes "\<And>c. f c = CHR '':'' \<longleftrightarrow> c = CHR '':''" "\<And>c. f c = CHR ''/'' \<longleftrightarrow> c = CHR ''/''"
  shows "find_str ''://'' (map f s) = find_str ''://'' s"
proof (induction s)
  case Nil
  show ?case by simp
next
  case (Cons x xs)
  have "take (length ''://'') (f x # map f xs) = map f (take (length ''://'') (x # xs))"
    by (metis take_map list.simps(9))
  then have eq: "(take (length ''://'') (f x # map f xs) = ''://'')
      = (take (length ''://'') (x # xs) = ''://'')"
    using map_sep_eq [OF assms, of "take (length ''://'') (x # xs)"] by (simp only:)
  show ?case by (simp only: list.map find_str.simps eq Cons.IH)
qed

lemma of_char_tolower:
  "(of_char (tolower_c c) :: nat) =
     (if 65 \<le> (of_char c :: nat) \<and> (of_char c :: nat) \<le> 90 then of_char c + 32 else of_char c)"
  by (simp add: tolower_c_def)

lemma tolower_colon: "tolower_c c = CHR '':'' \<longleftrightarrow> c = CHR '':''"
proof -
  have "tolower_c c = CHR '':'' \<longleftrightarrow> (of_char (tolower_c c) :: nat) = of_char (CHR '':'')"
    by (metis of_char_eq_iff)
  also have "\<dots> \<longleftrightarrow> (of_char c :: nat) = of_char (CHR '':'')"
    by (simp add: of_char_tolower)
  also have "\<dots> \<longleftrightarrow> c = CHR '':''" by (metis of_char_eq_iff)
  finally show ?thesis .
qed

lemma tolower_slash: "tolower_c c = CHR ''/'' \<longleftrightarrow> c = CHR ''/''"
proof -
  have "tolower_c c = CHR ''/'' \<longleftrightarrow> (of_char (tolower_c c) :: nat) = of_char (CHR ''/'')"
    by (metis of_char_eq_iff)
  also have "\<dots> \<longleftrightarrow> (of_char c :: nat) = of_char (CHR ''/'')"
    by (simp add: of_char_tolower)
  also have "\<dots> \<longleftrightarrow> c = CHR ''/''" by (metis of_char_eq_iff)
  finally show ?thesis .
qed

lemma tolower_idem: "tolower_c (tolower_c c) = tolower_c c"
proof -
  have "(of_char (tolower_c (tolower_c c)) :: nat) = of_char (tolower_c c)"
    by (simp add: of_char_tolower)
  then show ?thesis by (metis of_char_eq_iff)
qed

subsection \<open>Decimal numbers\<close>

lemma of_char_digit_char: "d < 10 \<Longrightarrow> (of_char (digit_char d) :: nat) = 48 + d"
  by (simp add: digit_char_def)

lemma isdigit_digit_char: "d < 10 \<Longrightarrow> isdigit_c (digit_char d)"
  by (simp add: isdigit_c_def of_char_digit_char)

lemma digit_val_digit_char: "d < 10 \<Longrightarrow> digit_val (digit_char d) = d"
  by (simp add: digit_val_def of_char_digit_char)

lemma dec_nat_digits: "c \<in> set (dec_nat n) \<Longrightarrow> isdigit_c c"
proof (induction n arbitrary: c rule: dec_nat.induct)
  case (1 n)
  show ?case
  proof (cases "n < 10")
    case True
    with "1.prems" show ?thesis by (subst (asm) dec_nat.simps) (simp add: isdigit_digit_char)
  next
    case False
    with "1.prems" have "c \<in> set (dec_nat (n div 10)) \<or> c = digit_char (n mod 10)"
      by (subst (asm) dec_nat.simps) auto
    then show ?thesis using "1.IH" [OF False] by (auto simp: isdigit_digit_char)
  qed
qed

lemma dec_nat_nonempty: "dec_nat n \<noteq> []"
  by (subst dec_nat.simps) simp

lemma digits_value_snoc: "digits_value (ds @ [c]) = 10 * digits_value ds + digit_val c"
  by (simp add: digits_value_def)

lemma digits_value_dec_nat: "digits_value (dec_nat n) = n"
proof (induction n rule: dec_nat.induct)
  case (1 n)
  show ?case
  proof (cases "n < 10")
    case True
    then show ?thesis by (subst dec_nat.simps) (simp add: digits_value_def digit_val_digit_char)
  next
    case False
    have "digits_value (dec_nat n)
        = 10 * digits_value (dec_nat (n div 10)) + digit_val (digit_char (n mod 10))"
      using False by (subst dec_nat.simps) (simp add: digits_value_snoc)
    also have "\<dots> = 10 * (n div 10) + n mod 10"
      using "1.IH" [OF False] by (simp add: digit_val_digit_char)
    finally show ?thesis by simp
  qed
qed

lemma isdigit_not_space: "isdigit_c c \<Longrightarrow> \<not> isspace_c c"
  by (auto simp: isdigit_c_def isspace_c_def)

lemma isdigit_not_sep:
  "isdigit_c c \<Longrightarrow>
     c \<noteq> CHR ''-'' \<and> c \<noteq> CHR ''+'' \<and> c \<noteq> CHR '':'' \<and> c \<noteq> CHR ''/'' \<and> c \<noteq> CHR ''?''"
  by (auto simp: isdigit_c_def)

lemma takeWhile_all: "(\<And>c. c \<in> set ds \<Longrightarrow> P c) \<Longrightarrow> takeWhile P ds = ds"
  by (simp add: takeWhile_eq_all_conv)

lemma stoi_dec_nat:
  assumes "int n \<le> INT_MAX"
  shows "stoi (dec_nat n) = Inr (int n)"
proof -
  obtain d ds where c: "dec_nat n = d # ds"
    using dec_nat_nonempty [of n] by (cases "dec_nat n") auto
  have dig: "\<And>c. c \<in> set (dec_nat n) \<Longrightarrow> isdigit_c c" by (rule dec_nat_digits)
  have d: "isdigit_c d" using dig c by simp
  have 1: "dropWhile isspace_c (dec_nat n) = dec_nat n"
    using c isdigit_not_space [OF d] by simp
  have 2: "strip_sign (dec_nat n) = (False, dec_nat n)"
    using c isdigit_not_sep [OF d] by (simp add: strip_sign_def)
  have 3: "takeWhile isdigit_c (dec_nat n) = dec_nat n" using dig by (rule takeWhile_all)
  show ?thesis using assms
    by (simp add: stoi_def 1 2 3 dec_nat_nonempty digits_value_dec_nat INT_MIN_def INT_MAX_def)
qed

lemma stoi_neg_dec_nat:
  assumes "INT_MIN \<le> - int n"
  shows "stoi (CHR ''-'' # dec_nat n) = Inr (- int n)"
proof -
  have dig: "\<And>c. c \<in> set (dec_nat n) \<Longrightarrow> isdigit_c c" by (rule dec_nat_digits)
  have 2: "strip_sign (CHR ''-'' # dec_nat n) = (True, dec_nat n)"
    by (simp add: strip_sign_def)
  have 3: "takeWhile isdigit_c (dec_nat n) = dec_nat n" using dig by (rule takeWhile_all)
  show ?thesis using assms
    by (simp add: stoi_def 2 3 isspace_c_def dec_nat_nonempty digits_value_dec_nat
        INT_MIN_def INT_MAX_def)
qed

lemma stoi_to_string_int:
  assumes "INT_MIN \<le> i" "i \<le> INT_MAX"
  shows "stoi (to_string_int i) = Inr i"
proof (cases "i < 0")
  case True
  then show ?thesis using assms stoi_neg_dec_nat [of "nat (- i)"] by (simp add: to_string_int_def)
next
  case False
  then show ?thesis using assms stoi_dec_nat [of "nat i"] by (simp add: to_string_int_def)
qed

lemma to_string_int_no_sep:
  "c \<in> set (to_string_int i) \<Longrightarrow> c \<noteq> CHR '':'' \<and> c \<noteq> CHR ''/'' \<and> c \<noteq> CHR ''?''"
  using isdigit_not_sep dec_nat_digits by (auto simp: to_string_int_def split: if_splits)

lemma stoi_range: "stoi s = Inr v \<Longrightarrow> INT_MIN \<le> v \<and> v \<le> INT_MAX"
  by (auto simp: stoi_def Let_def split: prod.splits if_splits)

section \<open>URL parsing\<close>

lemma URL_parse_shape:
  assumes a: "find_str ''://'' (a @ ''://'') = Some (length a)"
    and hp: "CHR ''/'' \<notin> set hp" "CHR ''?'' \<notin> set hp"
    and p: "p = CHR ''/'' # p'" "CHR ''?'' \<notin> set p"
    and q: "qq = [] \<or> qq = CHR ''?'' # q"
  shows "URL_parse (a @ ''://'' @ hp @ p @ qq) =
     (case find_first (CHR '':'') hp of
        Some d \<Rightarrow>
          (case stoi (drop (d + 1) hp) of
             Inl e \<Rightarrow> Inl e
           | Inr n \<Rightarrow> Inr (Some \<lparr>scheme = map tolower_c a, host = take d hp, port = n,
                                  path = p, query = drop 1 qq\<rparr>))
      | None \<Rightarrow> Inr (Some \<lparr>scheme = map tolower_c a, host = hp,
                            port = (if map tolower_c a = ''https'' then 443 else 80),
                            path = p, query = drop 1 qq\<rparr>))"
proof -
  define url where "url = a @ ''://'' @ hp @ p @ qq"
  have F: "find_str ''://'' url = Some (length a)"
    unfolding url_def using a by (simp only: find_str_drop_tail)
  have D: "drop (length a + 3) url = hp @ p @ qq" by (simp add: url_def)
  have S: "substr url 0 (length a) = a" by (simp add: url_def substr_def)
  have PS: "find_char url (CHR ''/'') (length a + 3) = Some (length a + 3 + length hp)"
    unfolding find_char_def D using hp p by (simp add: find_first_append_notin)
  have QS: "find_char url (CHR ''?'') (length a + 3) =
      (if qq = [] then None else Some (length a + 3 + length hp + length p))"
  proof (cases "qq = []")
    case True
    have "CHR ''?'' \<notin> set (hp @ p @ qq)" using hp p True by simp
    then have "find_first (CHR ''?'') (hp @ p @ qq) = None"
      by (rule find_first_None_iff [THEN iffD2])
    then show ?thesis unfolding find_char_def D using True by simp
  next
    case False
    with q have qq: "qq = CHR ''?'' # q" by simp
    have "find_first (CHR ''?'') ((hp @ p) @ CHR ''?'' # q) = Some (length (hp @ p))"
      using hp p by (intro find_first_hit) simp
    then show ?thesis unfolding find_char_def D using False qq by simp
  qed
  let ?ps = "length a + 3 + length hp"
  have S2: "substr url (length a + 3) (?ps - (length a + 3)) = hp"
    by (simp add: substr_def D)
  have "drop ?ps url = drop (length hp) (drop (length a + 3) url)"
    by (simp add: add.commute)
  then have PQ1: "drop ?ps url = p @ qq" by (simp only: D) simp
  have "drop (?ps + length p + 1) url = drop (length p + 1) (drop ?ps url)"
    by (simp add: add.commute add.left_commute)
  then have PQ2: "substr_from url (?ps + length p + 1) = drop 1 qq"
    by (simp only: PQ1 substr_from_def) simp
  have P2: "substr url ?ps (?ps + length p - ?ps) = p"
    by (simp add: substr_def PQ1)
  have LT: "?ps < ?ps + length p" using p by simp
  have M: "min ?ps (?ps + length p) = ?ps" by simp
  show ?thesis
  proof (cases "qq = []")
    case True
    have P1: "substr_from url ?ps = p" by (simp add: substr_from_def PQ1 True)
    have QS: "find_char url (CHR ''?'') (length a + 3) = None" using QS True by simp
    show ?thesis
      unfolding url_def [symmetric] URL_parse_def
      apply (simp only: F option.case Let_def PS QS True if_True npos_min_def S S2 P1
          fst_conv snd_conv substr_from_def [of hp] substr_def [of hp] drop_0 list.sel
          drop_Suc_Cons One_nat_def cong: option.case_cong sum.case_cong)
      apply (simp split: option.splits sum.splits)
      done
  next
    case False
    have QS: "find_char url (CHR ''?'') (length a + 3) = Some (?ps + length p)"
      using QS False by simp
    show ?thesis
      unfolding url_def [symmetric] URL_parse_def
      by (simp only: F option.case Let_def PS QS False if_False npos_min_def S S2 P2 PQ2 M LT
          if_True fst_conv snd_conv substr_from_def [of hp] substr_def [of hp] drop_0
          cong: option.case_cong sum.case_cong)
  qed
qed

lemma URL_parse_wf:
  assumes "URL_parse s = Inr (Some u)"
  shows "wf_URL u"
proof -
  from assms obtain n where n: "find_str ''://'' s = Some n"
    by (auto simp: URL_parse_def split: option.splits)
  let ?a = "take n s"
  have a: "find_str ''://'' (?a @ ''://'') = Some n" using find_str_prefix_part [OF n] .
  have la: "length ?a = n" using find_str_Some_split [OF n] by simp
  have "find_str ''://'' (map tolower_c (?a @ ''://'')) = Some n"
    using a by (simp only: find_str_map [of tolower_c, OF tolower_colon tolower_slash])
  then have sch: "find_str ''://'' (map tolower_c ?a @ ''://'') = Some (length (map tolower_c ?a))"
    using la by (simp add: tolower_c_def)
  have idem: "map tolower_c (map tolower_c ?a) = map tolower_c ?a"
    by (simp add: tolower_idem)
  define pos where "pos = n + 3"
  define ps where "ps = find_char s (CHR ''/'') pos"
  define qs where "qs = find_char s (CHR ''?'') pos"
  define he where "he = (case npos_min ps qs of None \<Rightarrow> length s | Some e \<Rightarrow> e)"
  define hostport where "hostport = substr s pos (he - pos)"
  have hp_nosep: "CHR ''/'' \<notin> set hostport \<and> CHR ''?'' \<notin> set hostport"
  proof -
    have *: "\<And>c k. find_char s c pos = Some k \<Longrightarrow> he \<le> k \<Longrightarrow> c \<notin> set hostport"
    proof -
      fix c k assume f: "find_char s c pos = Some k" and le: "he \<le> k"
      from f obtain i where i: "find_first c (drop pos s) = Some i" "k = pos + i"
        by (auto simp: find_char_def)
      from find_first_Some_split [OF i(1)] have "c \<notin> set (take i (drop pos s))" by simp
      moreover have "set (take (he - pos) (drop pos s)) \<subseteq> set (take i (drop pos s))"
        using le i(2) by (intro set_take_subset_set_take) simp
      ultimately show "c \<notin> set hostport" by (auto simp: hostport_def substr_def)
    qed
    have **: "\<And>c. find_char s c pos = None \<Longrightarrow> c \<notin> set hostport"
    proof -
      fix c assume "find_char s c pos = None"
      then have "c \<notin> set (drop pos s)" by (simp add: find_char_def find_first_None_iff)
      then show "c \<notin> set hostport"
        by (auto simp: hostport_def substr_def dest: in_set_takeD)
    qed
    have "CHR ''/'' \<notin> set hostport"
      using * [of "CHR ''/''"] ** [of "CHR ''/''"]
      by (cases ps; cases qs) (auto simp: he_def npos_min_def ps_def qs_def)
    moreover have "CHR ''?'' \<notin> set hostport"
      using * [of "CHR ''?''"] ** [of "CHR ''?''"]
      by (cases ps; cases qs) (auto simp: he_def npos_min_def ps_def qs_def)
    ultimately show ?thesis by simp
  qed
  have path_ok: "\<And>k. ps = Some k \<Longrightarrow> drop k s \<noteq> [] \<and> hd (drop k s) = CHR ''/''"
  proof -
    fix k assume "ps = Some k"
    then obtain i where i: "find_first (CHR ''/'') (drop pos s) = Some i" "k = pos + i"
      by (auto simp: ps_def find_char_def)
    from find_first_Some_split [OF i(1)]
    have "i < length (drop pos s)" "drop pos s ! i = CHR ''/''" by auto
    then show "drop k s \<noteq> [] \<and> hd (drop k s) = CHR ''/''"
      using i(2) by (simp add: hd_drop_conv_nth)
  qed
  define pq where "pq =
      (case ps of
         Some k \<Rightarrow>
           (case qs of
              Some q \<Rightarrow> if k < q then (substr s k (q - k), substr_from s (q + 1))
                        else (substr_from s k, [])
            | None \<Rightarrow> (substr_from s k, []))
       | None \<Rightarrow>
           (case qs of Some q \<Rightarrow> (''/'', substr_from s (q + 1)) | None \<Rightarrow> (''/'', [])))"
  have pth: "fst pq \<noteq> [] \<and> hd (fst pq) = CHR ''/''"
  proof (cases ps)
    case None
    then show ?thesis by (cases qs) (simp_all add: pq_def)
  next
    case (Some k)
    note k = path_ok [OF Some]
    show ?thesis
    proof (cases qs)
      case None
      with Some k show ?thesis by (simp add: pq_def substr_from_def)
    next
      case (Some q)
      show ?thesis
      proof (cases "k < q")
        case True
        then have "0 < q - k" by simp
        then have "take (q - k) (drop k s) \<noteq> [] \<and> hd (take (q - k) (drop k s)) = CHR ''/''"
          using k by (cases "drop k s"; cases "q - k") auto
        then show ?thesis using \<open>ps = Some k\<close> Some True by (simp add: pq_def substr_def)
      next
        case False
        then show ?thesis using \<open>ps = Some k\<close> Some k by (simp add: pq_def substr_from_def)
      qed
    qed
  qed
  have U: "URL_parse s =
      (case find_first (CHR '':'') hostport of
         Some d \<Rightarrow>
           (case stoi (substr_from hostport (d + 1)) of
              Inl e \<Rightarrow> Inl e
            | Inr pv \<Rightarrow> Inr (Some \<lparr>scheme = map tolower_c ?a, host = substr hostport 0 d,
                                    port = pv, path = fst pq, query = snd pq\<rparr>))
       | None \<Rightarrow> Inr (Some \<lparr>scheme = map tolower_c ?a, host = hostport,
                             port = (if map tolower_c ?a = ''https'' then 443 else 80),
                             path = fst pq, query = snd pq\<rparr>))"
    unfolding URL_parse_def pq_def hostport_def he_def ps_def qs_def pos_def
    by (simp add: n Let_def substr_def [of s 0])
  show ?thesis
  proof (cases "find_first (CHR '':'') hostport")
    case None
    then have c: "CHR '':'' \<notin> set hostport" by (simp add: find_first_None_iff)
    from assms U None
    have u: "u = \<lparr>scheme = map tolower_c ?a, host = hostport,
                  port = (if map tolower_c ?a = ''https'' then 443 else 80),
                  path = fst pq, query = snd pq\<rparr>" by simp
    show ?thesis unfolding wf_URL_def u
      using sch idem c hp_nosep pth by (simp add: INT_MIN_def INT_MAX_def)
  next
    case (Some d)
    with assms U obtain pv where pv: "stoi (substr_from hostport (d + 1)) = Inr pv"
      and u: "u = \<lparr>scheme = map tolower_c ?a, host = substr hostport 0 d,
                  port = pv, path = fst pq, query = snd pq\<rparr>"
      by (auto split: sum.splits)
    from find_first_Some_split [OF Some] have c: "CHR '':'' \<notin> set (take d hostport)" by simp
    have sub: "set (take d hostport) \<subseteq> set hostport" by (rule set_take_subset)
    show ?thesis unfolding wf_URL_def u
      using sch idem c hp_nosep pth stoi_range [OF pv] sub by (auto simp: substr_def)
  qed
qed

lemma URL_roundtrip_wf:
  assumes wf: "wf_URL u"
    and noq: "CHR ''?'' \<notin> set (path u)"
    and sp: "scheme u = ''http'' \<or> scheme u = ''https'' \<or> port u = 80"
  shows "URL_parse (URL_to_string u) = Inr (Some u)"
proof -
  define printed where
    "printed \<longleftrightarrow> (scheme u = ''http'' \<and> port u \<noteq> 80) \<or> (scheme u = ''https'' \<and> port u \<noteq> 443)"
  define hp where "hp = host u @ (if printed then '':'' @ to_string_int (port u) else [])"
  define qq where "qq = (if query u \<noteq> [] then ''?'' @ query u else [])"
  from wf have a: "find_str ''://'' (scheme u @ ''://'') = Some (length (scheme u))"
    and low: "map tolower_c (scheme u) = scheme u"
    and h: "CHR '':'' \<notin> set (host u)" "CHR ''/'' \<notin> set (host u)" "CHR ''?'' \<notin> set (host u)"
    and p: "path u \<noteq> []" "hd (path u) = CHR ''/''"
    and r: "INT_MIN \<le> port u" "port u \<le> INT_MAX"
    by (simp_all add: wf_URL_def)
  have ts: "URL_to_string u = scheme u @ ''://'' @ hp @ path u @ qq"
    by (simp add: URL_to_string_def hp_def qq_def printed_def)
  have hp1: "CHR ''/'' \<notin> set hp" "CHR ''?'' \<notin> set hp"
    using h to_string_int_no_sep [of _ "port u"] by (auto simp: hp_def)
  have p': "path u = CHR ''/'' # tl (path u)" using p by (cases "path u") auto
  have q: "qq = [] \<or> qq = CHR ''?'' # query u" by (simp add: qq_def)
  have dq: "drop (Suc 0) qq = query u" by (simp add: qq_def)
  note shape = URL_parse_shape [OF a hp1 p' noq q]
  show ?thesis
  proof (cases printed)
    case True
    then have hpe: "hp = host u @ CHR '':'' # to_string_int (port u)" by (simp add: hp_def)
    have f: "find_first (CHR '':'') hp = Some (length (host u))"
      unfolding hpe using h(1) by (rule find_first_hit)
    have "drop (length (host u) + 1) hp = to_string_int (port u)" by (simp add: hpe)
    then have d: "stoi (drop (length (host u) + 1) hp) = Inr (port u)"
      by (simp only: stoi_to_string_int [OF r])
    have t: "take (length (host u)) hp = host u" by (simp add: hpe)
    show ?thesis unfolding ts shape f option.case d sum.case t low by (simp add: dq)
  next
    case False
    then have hpe: "hp = host u" by (simp add: hp_def)
    have f: "find_first (CHR '':'') hp = None" unfolding hpe using h(1)
      by (simp add: find_first_None_iff)
    have pt: "(if scheme u = ''https'' then 443 else 80) = port u"
      using False sp by (auto simp: printed_def)
    show ?thesis unfolding ts shape f
      by (simp add: low dq pt hpe)
  qed
qed

lemma URL_parse_without_separator: "find_str ''://'' s = None \<Longrightarrow> URL_parse s = Inr None"
  by (simp add: URL_parse_def)

text \<open>
  C4. The claim is that \<open>URL::parse\<close> never throws, also when the text after \<open>:\<close> is not a
  number or is out of range. The code passes that text to \<open>std::stoi\<close> and catches nothing:
  on \<open>http://h:x\<close> the call leaves with \<open>std::invalid_argument\<close>, on
  \<open>http://h:99999999999\<close> with \<open>std::out_of_range\<close>.
\<close>

theorem URL_parse_throws:
  "URL_parse ''http://h:x'' = Inl invalid_argument
   \<and> URL_parse ''http://h:99999999999'' = Inl out_of_range"
  by (simp add: URL_parse_def find_char_def substr_def substr_from_def npos_min_def stoi_def
      strip_sign_def isspace_c_def isdigit_c_def tolower_c_def digits_value_def digit_val_def
      INT_MIN_def INT_MAX_def)

text \<open>
  C5, as the claim states it, fails: a port given with a scheme other than http and https is
  not printed by \<open>to_string\<close>, and a \<open>?\<close> that comes before the first \<open>/\<close> leaves a path with
  a \<open>?\<close> in it, which the second parse splits.
\<close>

theorem URL_roundtrip_counterexample:
  "URL_parse ''ftp://h:21'' =
      Inr (Some \<lparr>scheme = ''ftp'', host = ''h'', port = 21, path = ''/'', query = []\<rparr>)
   \<and> URL_parse (URL_to_string \<lparr>scheme = ''ftp'', host = ''h'', port = 21, path = ''/'', query = []\<rparr>)
      = Inr (Some \<lparr>scheme = ''ftp'', host = ''h'', port = 80, path = ''/'', query = []\<rparr>)
   \<and> URL_parse ''http://h?a/b?c'' =
      Inr (Some \<lparr>scheme = ''http'', host = ''h'', port = 80, path = ''/b?c'', query = []\<rparr>)
   \<and> URL_parse (URL_to_string \<lparr>scheme = ''http'', host = ''h'', port = 80, path = ''/b?c'', query = []\<rparr>)
      = Inr (Some \<lparr>scheme = ''http'', host = ''h'', port = 80, path = ''/b'', query = ''c''\<rparr>)"
  by (simp add: URL_to_string_def) code_simp

text \<open>
  C5, amended. For every string on which \<open>URL::parse\<close> succeeds with a result whose path has
  no \<open>?\<close> and whose scheme is http or https (or whose port is 80), parsing the \<open>to_string\<close> of
  the result gives the result back.
\<close>

theorem URL_roundtrip:
  assumes "URL_parse s = Inr (Some u)"
    and "CHR ''?'' \<notin> set (path u)"
    and "scheme u = ''http'' \<or> scheme u = ''https'' \<or> port u = 80"
  shows "URL_parse (URL_to_string u) = Inr (Some u)"
  using URL_roundtrip_wf [OF URL_parse_wf [OF assms(1)] assms(2,3)] .

theorem URL_roundtrip_witness:
  "URL_parse ''http://example/abc?q=1'' =
      Inr (Some \<lparr>scheme = ''http'', host = ''example'', port = 80, path = ''/abc'',
                 query = ''q=1''\<rparr>)
   \<and> URL_to_string \<lparr>scheme = ''http'', host = ''example'', port = 80, path = ''/abc'',
                     query = ''q=1''\<rparr> = ''http://example/abc?q=1''
   \<and> URL_parse (URL_to_string \<lparr>scheme = ''http'', host = ''example'', port = 80,
                                path = ''/abc'', query = ''q=1''\<rparr>)
       = Inr (Some \<lparr>scheme = ''http'', host = ''example'', port = 80, path = ''/abc'',
                    query = ''q=1''\<rparr>)"
proof -
  let ?u = "\<lparr>scheme = ''http'', host = ''example'', port = 80, path = ''/abc'', query = ''q=1''\<rparr>"
  have 1: "URL_parse ''http://example/abc?q=1'' = Inr (Some ?u)" by code_simp
  have 2: "CHR ''?'' \<notin> set (path ?u)" by simp
  have 3: "scheme ?u = ''http'' \<or> scheme ?u = ''https'' \<or> port ?u = 80" by simp
  have 4: "URL_to_string ?u = ''http://example/abc?q=1''" by (simp add: URL_to_string_def)
  from URL_roundtrip [OF 1 2 3] 1 4 show ?thesis by simp
qed

section \<open>Retry wrapper\<close>

lemma acquire_loop_stats: "stats (snd (snd (acquire_loop prb now k v w))) = stats w"
  by (induction k arbitrary: v w) (auto split: option.splits)

lemma pool_acquire_stats: "stats (snd (pool_acquire prb now h p t w)) = stats w"
  using acquire_loop_stats [of prb now]
  by (auto simp: pool_acquire_def set_pools_def split: option.splits prod.splits)
    (metis snd_conv)

lemma pool_release_stats: "stats (pool_release now h p c w) = stats w"
  by (auto simp: pool_release_def set_pools_def Let_def split: option.splits)

lemma server_503_served:
  "\<exists>r w'. execute_request server_503 get_h w = Inr (r, w') \<and> 500 \<le> status_code r
      \<and> error_counts (stats w') = error_counts (stats w)
      \<and> total_requests (stats w') = total_requests (stats w) + 1"
proof -
  obtain c w1 where acq: "pool_acquire (\<lambda>_. WouldBlock) 0 ''h'' 80 False w = (c, w1)"
    by (cases "pool_acquire (\<lambda>_. WouldBlock) 0 ''h'' 80 False w") auto
  have st: "stats w1 = stats w"
    using pool_acquire_stats [of "\<lambda>_. WouldBlock" 0 "''h''" 80 False w] acq by simp
  show ?thesis
    apply (subst execute_request.simps)
    apply (simp add: server_503_def get_h_def acq Let_def new_connection_def failed_def
        pool_release_stats st record_connection_def record_request_def Response_default_def
        split: option.splits)
    done
qed

lemma retry_loop_retries:
  assumes "attempts < m" and "exec w = Inr (r, w1)" and "500 \<le> status_code r"
  shows "retry_loop exec m attempts w =
     retry_loop exec m (attempts + 1)
       (if attempts + 1 < m then w1\<lparr>stats := record_error ''retry'' (stats w1)\<rparr> else w1)"
  using assms by (subst retry_loop.simps) (simp add: Let_def)

lemma retry_loop_ends: "retry_loop exec m m w = Inr (None, m, w)"
  by (subst retry_loop.simps) simp

text \<open>
  C1, as the claim states it, fails in its last part: after the third 503 the loop ends and
  \<open>execute_with_retry\<close> returns a new response with status 0, not the 503 of the server.
\<close>

theorem retry_exhausted_503_counterexample:
  "map_sum id (status_code \<circ> fst) (request server_503 get_h (world_init 200 90)) = Inr 0"
  by code_simp

text \<open>
  C1, amended. Let \<open>max_retries = 2\<close> and let every attempt return a status of 500 or more
  (503, or any other 5xx), record one request and no error kind. Then the retry wrapper
  runs the executor three times, each time on the state that the attempt before it left
  (with \<open>retry\<close> recorded after the first and after the second attempt, and not after the
  third): 3 requests are recorded, \<open>retry\<close> twice and \<open>max_retries_exceeded\<close> once, and the
  response returned has status 0. A request with no retries configured runs the executor
  exactly once and returns what it returns.
\<close>

theorem retry_exhausted_5xx:
  assumes "\<And>w. \<exists>r w'. exec w = Inr (r, w') \<and> 500 \<le> status_code r
                \<and> error_counts (stats w') = error_counts (stats w)
                \<and> total_requests (stats w') = total_requests (stats w) + 1"
    and "max_retries req = 2"
  shows "\<exists>r1 w1 r2 w2 r3 w3.
        exec w = Inr (r1, w1)
      \<and> exec (w1\<lparr>stats := record_error ''retry'' (stats w1)\<rparr>) = Inr (r2, w2)
      \<and> exec (w2\<lparr>stats := record_error ''retry'' (stats w2)\<rparr>) = Inr (r3, w3)
      \<and> retry_loop exec (max_retries req + 1) 0 w = Inr (None, 3, w3)
      \<and> request_with exec req w
          = Inr (Response_default\<lparr>status_code := 0\<rparr>,
                 w3\<lparr>stats := record_error ''max_retries_exceeded'' (stats w3)\<rparr>)
      \<and> total_requests (stats (w3\<lparr>stats := record_error ''max_retries_exceeded'' (stats w3)\<rparr>))
          = total_requests (stats w) + 3
      \<and> error_counts (stats (w3\<lparr>stats := record_error ''max_retries_exceeded'' (stats w3)\<rparr>))
            ''retry'' = error_counts (stats w) ''retry'' + 2
      \<and> error_counts (stats (w3\<lparr>stats := record_error ''max_retries_exceeded'' (stats w3)\<rparr>))
            ''max_retries_exceeded'' = error_counts (stats w) ''max_retries_exceeded'' + 1
      \<and> (max_retries req' \<le> 0 \<longrightarrow> request_with exec req' w = exec w)"
proof -
  from assms(1) [of w] obtain r1 w1 where e1: "exec w = Inr (r1, w1)" "500 \<le> status_code r1"
    and c1: "error_counts (stats w1) = error_counts (stats w)"
    and t1: "total_requests (stats w1) = total_requests (stats w) + 1" by blast
  let ?v1 = "w1\<lparr>stats := record_error ''retry'' (stats w1)\<rparr>"
  from assms(1) [of ?v1] obtain r2 w2 where e2: "exec ?v1 = Inr (r2, w2)" "500 \<le> status_code r2"
    and c2: "error_counts (stats w2) = error_counts (stats ?v1)"
    and t2: "total_requests (stats w2) = total_requests (stats ?v1) + 1" by blast
  let ?v2 = "w2\<lparr>stats := record_error ''retry'' (stats w2)\<rparr>"
  from assms(1) [of ?v2] obtain r3 w3 where e3: "exec ?v2 = Inr (r3, w3)" "500 \<le> status_code r3"
    and c3: "error_counts (stats w3) = error_counts (stats ?v2)"
    and t3: "total_requests (stats w3) = total_requests (stats ?v2) + 1" by blast
  let ?w' = "w3\<lparr>stats := record_error ''max_retries_exceeded'' (stats w3)\<rparr>"
  have s1: "retry_loop exec 3 0 w = retry_loop exec 3 1 ?v1"
    using retry_loop_retries [of 0 3 exec w r1 w1] e1 by simp
  have s2: "retry_loop exec 3 1 ?v1 = retry_loop exec 3 2 ?v2"
    using retry_loop_retries [of 1 3 exec ?v1 r2 w2] e2 by simp
  have s3: "retry_loop exec 3 2 ?v2 = retry_loop exec 3 3 w3"
    using retry_loop_retries [of 2 3 exec ?v2 r3 w3] e3 by simp
  have l: "retry_loop exec 3 0 w = Inr (None, 3, w3)"
    by (simp only: s1 s2 s3 retry_loop_ends)
  have m: "max_retries req + 1 = 3" using assms(2) by simp
  have 1: "request_with exec req w = Inr (Response_default\<lparr>status_code := 0\<rparr>, ?w')"
    using l assms(2) by (simp add: request_with_def execute_with_retry_def)
  have 2: "total_requests (stats ?w') = total_requests (stats w) + 3"
    using t1 t2 t3 by (simp add: record_error_def)
  have 3: "error_counts (stats ?w') ''retry'' = error_counts (stats w) ''retry'' + 2"
    using c1 c2 c3 by (simp add: record_error_def)
  have 4: "error_counts (stats ?w') ''max_retries_exceeded''
      = error_counts (stats w) ''max_retries_exceeded'' + 1"
    using c1 c2 c3 by (simp add: record_error_def)
  have 5: "max_retries req' \<le> 0 \<longrightarrow> request_with exec req' w = exec w"
    by (simp add: request_with_def)
  show ?thesis
    unfolding m
    by (rule exI [of _ r1], rule exI [of _ w1], rule exI [of _ r2], rule exI [of _ w2],
        rule exI [of _ r3], rule exI [of _ w3], intro conjI)
       (rule e1(1) e2(1) e3(1) l 1 2 3 4 5)+
qed

theorem retry_exhausted_5xx_witness:
  "max_retries get_h = 2
   \<and> (\<exists>w'. request server_503 get_h (world_init 200 90)
               = Inr (Response_default\<lparr>status_code := 0\<rparr>, w')
        \<and> total_requests (stats w') = 3
        \<and> error_counts (stats w') ''retry'' = 2
        \<and> error_counts (stats w') ''max_retries_exceeded'' = 1)"
proof -
  have m: "max_retries get_h = 2" by (simp add: get_h_def)
  have z: "total_requests (stats (world_init 200 90)) = 0"
    "error_counts (stats (world_init 200 90)) ''retry'' = 0"
    "error_counts (stats (world_init 200 90)) ''max_retries_exceeded'' = 0"
    by (simp_all add: world_init_def Statistics_init_def)
  from retry_exhausted_5xx [of "execute_request server_503 get_h" get_h "world_init 200 90",
      OF server_503_served m]
  obtain w3 where
    "request_with (execute_request server_503 get_h) get_h (world_init 200 90)
       = Inr (Response_default\<lparr>status_code := 0\<rparr>,
              w3\<lparr>stats := record_error ''max_retries_exceeded'' (stats w3)\<rparr>)"
    "total_requests (stats (w3\<lparr>stats := record_error ''max_retries_exceeded'' (stats w3)\<rparr>))
       = total_requests (stats (world_init 200 90)) + 3"
    "error_counts (stats (w3\<lparr>stats := record_error ''max_retries_exceeded'' (stats w3)\<rparr>))
       ''retry'' = error_counts (stats (world_init 200 90)) ''retry'' + 2"
    "error_counts (stats (w3\<lparr>stats := record_error ''max_retries_exceeded'' (stats w3)\<rparr>))
       ''max_retries_exceeded''
       = error_counts (stats (world_init 200 90)) ''max_retries_exceeded'' + 1"
    by blast
  then have "request server_503 get_h (world_init 200 90)
            = Inr (Response_default\<lparr>status_code := 0\<rparr>,
                   w3\<lparr>stats := record_error ''max_retries_exceeded'' (stats w3)\<rparr>)
        \<and> total_requests (stats (w3\<lparr>stats := record_error ''max_retries_exceeded'' (stats w3)\<rparr>))
            = 3
        \<and> error_counts (stats (w3\<lparr>stats := record_error ''max_retries_exceeded'' (stats w3)\<rparr>))
            ''retry'' = 2
        \<and> error_counts (stats (w3\<lparr>stats := record_error ''max_retries_exceeded'' (stats w3)\<rparr>))
            ''max_retries_exceeded'' = 1"
    by (simp only: z request_def) simp
  then show ?thesis using m by blast
qed

section \<open>Batch executor\<close>

text \<open>
  C2. The claim is that the response stored at index \<open>i\<close> is the one produced for request
  \<open>i\<close>. The code stores every finished future at \<open>responses.size() - futures.size()\<close>,
  which is not the index the future was launched for. For two requests and
  \<open>max_parallel = 1\<close> the response to request 0 is overwritten and slot 0 keeps its initial
  value; for three requests and \<open>max_parallel = 3\<close> the response to request 1 is lost and
  slot 2 is never written. This holds whatever the responses are.
\<close>

theorem batch_request_misplaces:
  "batch_request result_of 2 1 = Some [Response_default, result_of 1]
   \<and> batch_request result_of 3 3 = Some [result_of 0, result_of 2, Response_default]"
  by (simp add: batch_request_def batch_loop.simps launch.simps size_t_of_int_def
      wait_remaining_def numeral_3_eq_3 numeral_2_eq_2)

section \<open>Request executor\<close>

text \<open>
  C3. The claim is that no connection stays marked \<open>in_use\<close> in the pool after
  \<open>execute_request\<close> returns and that a socket is closed once. \<open>acquire\<close> hands out a pooled
  connection without taking it out of the vector, and the \<open>send\<close> failure path closes the
  socket and returns without \<open>release\<close> or erase. After one request to \<open>http://h/\<close> the pool
  holds connection 0 (descriptor 7), idle. A second request whose \<open>send\<close> fails returns
  status 0; the pool still holds connection 0, now \<open>in_use\<close> for ever, on a closed
  descriptor, and the pool's destructor closes descriptor 7 a second time.
\<close>

theorem send_failure_keeps_connection_in_use:
  "pools (pool after_first_request) = [((''h'', 80, False), [0])]
   \<and> heap after_first_request 0
       = Some \<lparr>socket_fd = 7, tls = False, last_used = 0, in_use = False\<rparr>
   \<and> closed after_first_request = []
   \<and> map_sum id (status_code \<circ> fst) (execute_request send_fails get_h after_first_request) = Inr 0
   \<and> map_sum id (pools \<circ> pool \<circ> snd) (execute_request send_fails get_h after_first_request)
       = Inr [((''h'', 80, False), [0])]
   \<and> map_sum id ((\<lambda>hp. hp 0) \<circ> heap \<circ> snd) (execute_request send_fails get_h after_first_request)
       = Inr (Some \<lparr>socket_fd = 7, tls = False, last_used = 0, in_use = True\<rparr>)
   \<and> map_sum id (closed \<circ> snd) (execute_request send_fails get_h after_first_request) = Inr [7]
   \<and> map_sum id (closed \<circ> pool_destroy \<circ> snd)
        (execute_request send_fails get_h after_first_request) = Inr [7, 7]"
  by code_simp

section \<open>Parallel segmented download\<close>

lemma size_t_small: "n < 2 ^ 64 \<Longrightarrow> size_t (int n) = n"
proof -
  assume "n < 2 ^ 64"
  then have "int n < 2 ^ 64" by (metis of_nat_less_iff of_nat_numeral of_nat_power)
  then show ?thesis by (simp add: size_t_def)
qed

lemma range_header_regular:
  assumes "num_pipes \<le> content_length" "2 \<le> num_pipes" "content_length < 2 ^ 64"
    "i < num_pipes"
  shows "range_header (content_length div num_pipes) num_pipes i =
     (if i = num_pipes - 1
      then ''bytes='' @ dec_nat (i * (content_length div num_pipes)) @ ''-''
      else ''bytes='' @ dec_nat (i * (content_length div num_pipes)) @ ''-''
           @ dec_nat ((i + 1) * (content_length div num_pipes) - 1))"
proof -
  define s where "s = content_length div num_pipes"
  have s1: "1 \<le> s" using assms(1,2) by (simp add: s_def div_greater_zero_iff Suc_le_eq)
  have "num_pipes * s \<le> content_length" by (simp add: s_def)
  moreover have "(i + 1) * s \<le> num_pipes * s"
  proof -
    have "i + 1 \<le> num_pipes" using assms(4) by simp
    then show ?thesis by (rule mult_le_mono1)
  qed
  ultimately have b: "(i + 1) * s < 2 ^ 64" using assms(3) by linarith
  have "i * s \<le> (i + 1) * s" by simp
  then have a: "i * s < 2 ^ 64" using b by linarith
  have st: "size_t (int i * int s) = i * s"
    using size_t_small [OF a] by simp
  have pos: "1 \<le> (i + 1) * s" using s1 by (simp add: Suc_le_eq)
  have "(int i + 1) * int s - 1 = int ((i + 1) * s - 1)"
    using pos by (simp add: of_nat_diff algebra_simps)
  moreover have "(i + 1) * s - 1 < 2 ^ 64" using b by linarith
  ultimately have en: "size_t ((int i + 1) * int s - 1) = (i + 1) * s - 1"
    using size_t_small by simp
  have ix: "(int i = int num_pipes - 1) = (i = num_pipes - 1)" using assms(2) by auto
  show ?thesis
    unfolding s_def [symmetric] range_header_def Let_def st en ix by simp
qed

lemma digit_char_eval:
  "digit_char 0 = CHR ''0''" "digit_char 1 = CHR ''1''" "digit_char 2 = CHR ''2''"
  "digit_char 3 = CHR ''3''" "digit_char 4 = CHR ''4''" "digit_char 5 = CHR ''5''"
  "digit_char 6 = CHR ''6''" "digit_char 7 = CHR ''7''" "digit_char 8 = CHR ''8''"
  "digit_char 9 = CHR ''9''" "digit_char (Suc 0) = CHR ''1''"
  by code_simp+

text \<open>
  C8. The claim is that the ranges are contiguous and do not overlap. When the content is
  shorter than the number of pipes, \<open>segment_size\<close> is 0 and \<open>(i + 1) * segment_size - 1\<close>
  wraps around in \<open>size_t\<close>: for a content length of 1 and 2 pipes, pipe 0 asks for
  \<open>bytes=0-18446744073709551615\<close> and pipe 1 for \<open>bytes=0-\<close>, both the whole resource, and
  against a server that honours ranges the assembled body of the one-byte resource is two
  bytes long.
\<close>

theorem range_headers_overlap:
  "range_header (1 div 2) 2 0 = ''bytes=0-18446744073709551615''
   \<and> range_header (1 div 2) 2 1 = ''bytes=0-''
   \<and> parallel_download ''http://h/f'' 1 2 (serve_range ''x'') = Inr ''xx''"
proof -
  have u: "URL_parse ''http://h/f''
      = Inr (Some \<lparr>scheme = ''http'', host = ''h'', port = 80, path = ''/f'', query = []\<rparr>)"
    by code_simp
  have h0: "range_header 0 2 0 = ''bytes=0-18446744073709551615''"
    by (simp add: range_header_def size_t_def dec_nat.simps digit_char_eval)
  have h1: "range_header 0 2 (Suc 0) = ''bytes=0-''"
    by (simp add: range_header_def size_t_def dec_nat.simps digit_char_eval)
  have s0: "serve_range ''x'' ''bytes=0-18446744073709551615'' 0
      = Response_default\<lparr>status_code := 206, body := ''x''\<rparr>"
    by (simp add: serve_range_def isdigit_c_def digits_value_def digit_val_def)
  have s1: "serve_range ''x'' ''bytes=0-'' 0
      = Response_default\<lparr>status_code := 206, body := ''x''\<rparr>"
    by (simp add: serve_range_def isdigit_c_def digits_value_def digit_val_def)
  have up: "[0..<nat 2] = [0, Suc 0]" by code_simp
  have "parallel_download ''http://h/f'' 1 2 (serve_range ''x'') = Inr ''xx''"
    unfolding parallel_download_def up
    by (simp add: u worker_part_def fetch_attempts.simps h0 h1 s0 s1 Let_def)
  then show ?thesis using h0 h1 by simp
qed

section \<open>DNS cache\<close>

lemma div_less_iff_int:
  assumes "0 < (k::int)"
  shows "x div k < t \<longleftrightarrow> x < t * k"
proof
  have dm: "x div k * k + x mod k = x" by simp
  have lo: "0 \<le> x mod k" and hi: "x mod k < k" using assms by simp_all
  {
    assume "x div k < t"
    then have "x div k + 1 \<le> t" by simp
    then have "(x div k + 1) * k \<le> t * k" using assms by (simp add: mult_right_mono)
    then have "x div k * k + k \<le> t * k" by (simp add: distrib_right)
    then show "x < t * k" using dm hi by linarith
  }
  {
    assume a: "x < t * k"
    show "x div k < t"
    proof (rule ccontr)
      assume "\<not> x div k < t"
      then have "t \<le> x div k" by simp
      then have "t * k \<le> x div k * k" using assms by (simp add: mult_right_mono)
      then show False using a dm lo by linarith
    qed
  }
qed

lemma to_seconds_less:
  assumes "0 \<le> x"
  shows "to_seconds x < t \<longleftrightarrow> x < t * ticks_per_second"
proof -
  have k: "0 < ticks_per_second" by (simp add: ticks_per_second_def)
  have "to_seconds x = x div ticks_per_second"
    using assms k by (simp add: to_seconds_def cdiv_def)
  then show ?thesis using div_less_iff_int [OF k] by simp
qed

lemma resolve_stores:
  assumes "resolve h p now0 resolved0 now0' d0 = (addrs, d1)" and "addrs \<noteq> []"
  shows "\<exists>e. cache d1 (make_key h p) = Some e \<and> addresses e = addrs"
  using assms
  by (auto simp: resolve_def Let_def split: option.splits if_splits)

lemma resolve_fresh:
  assumes "cache d (make_key h p) = Some e" "cached_at e \<le> now"
    "now - cached_at e < ttl e * ticks_per_second"
  shows "resolve h p now resolved now' d = (addresses e, d\<lparr>hits := hits d + 1\<rparr>)"
  using assms by (simp add: resolve_def Let_def to_seconds_less)

lemma resolve_stale:
  assumes "cache d (make_key h p) = Some e" "cached_at e \<le> now"
    "\<not> now - cached_at e < ttl e * ticks_per_second"
  shows "fst (resolve h p now resolved now' d) = resolved
     \<and> hits (snd (resolve h p now resolved now' d)) = hits d
     \<and> misses (snd (resolve h p now resolved now' d)) = misses d + 1"
  using assms by (simp add: resolve_def Let_def to_seconds_less)

text \<open>
  C6. After a \<open>resolve(h, p)\<close> that returned a non-empty list, the cache holds an entry for
  \<open>(h, p)\<close> with that list. A following \<open>resolve(h, p)\<close> at a clock reading \<open>now\<close> (not before
  \<open>cached_at\<close>) with \<open>now - cached_at < ttl\<close> returns the same list, adds one to the hits and
  changes nothing else; and when \<open>now - cached_at < ttl\<close> does not hold the entry is not
  served: the call counts a miss and returns what the resolver delivers.
\<close>

theorem resolve_again_within_ttl:
  assumes "resolve h p now0 resolved0 now0' d0 = (addrs, d1)" and "addrs \<noteq> []"
  shows "\<exists>e. cache d1 (make_key h p) = Some e \<and> addresses e = addrs
     \<and> (\<forall>now resolved now'. cached_at e \<le> now \<longrightarrow>
          (if now - cached_at e < ttl e * ticks_per_second
           then resolve h p now resolved now' d1 = (addrs, d1\<lparr>hits := hits d1 + 1\<rparr>)
           else fst (resolve h p now resolved now' d1) = resolved
              \<and> hits (snd (resolve h p now resolved now' d1)) = hits d1
              \<and> misses (snd (resolve h p now resolved now' d1)) = misses d1 + 1))"
proof -
  from resolve_stores [OF assms] obtain e where
    e: "cache d1 (make_key h p) = Some e" "addresses e = addrs" by blast
  show ?thesis
  proof (intro exI [of _ e] conjI allI impI)
    fix now resolved now'
    assume le: "cached_at e \<le> now"
    show "if now - cached_at e < ttl e * ticks_per_second
           then resolve h p now resolved now' d1 = (addrs, d1\<lparr>hits := hits d1 + 1\<rparr>)
           else fst (resolve h p now resolved now' d1) = resolved
              \<and> hits (snd (resolve h p now resolved now' d1)) = hits d1
              \<and> misses (snd (resolve h p now resolved now' d1)) = misses d1 + 1"
      using resolve_fresh [OF e(1) le] resolve_stale [OF e(1) le] e(2) by (simp split: if_splits)
  qed (rule e)+
qed

theorem resolve_again_within_ttl_witness:
  "fst (resolve ''h'' 80 5 [''a''] 6 (DNSCache_init 300)) = [''a'']
   \<and> fst (resolve ''h'' 80 7 [''b''] 8 (snd (resolve ''h'' 80 5 [''a''] 6 (DNSCache_init 300))))
       = [''a'']
   \<and> hits (snd (resolve ''h'' 80 7 [''b''] 8
              (snd (resolve ''h'' 80 5 [''a''] 6 (DNSCache_init 300))))) = 1
   \<and> misses (snd (resolve ''h'' 80 7 [''b''] 8
                (snd (resolve ''h'' 80 5 [''a''] 6 (DNSCache_init 300))))) = 1
   \<and> fst (resolve ''h'' 80 300000000006 [''b''] 300000000007
            (snd (resolve ''h'' 80 5 [''a''] 6 (DNSCache_init 300)))) = [''b'']"
proof -
  let ?d1 = "snd (resolve ''h'' 80 5 [''a''] 6 (DNSCache_init 300))"
  have f: "fst (resolve ''h'' 80 5 [''a''] 6 (DNSCache_init 300)) = [''a'']"
    by (simp add: resolve_def DNSCache_init_def Let_def)
  have r: "resolve ''h'' 80 5 [''a''] 6 (DNSCache_init 300) = ([''a''], ?d1)"
    using f by (metis prod.collapse)
  have ne: "[''a''] \<noteq> ([] :: string list)" by simp
  have c: "cache ?d1 (make_key ''h'' 80)
      = Some \<lparr>addresses = [''a''], cached_at = 6, ttl = 300\<rparr>"
    by (simp add: resolve_def DNSCache_init_def Let_def)
  have hm: "hits ?d1 = 0" "misses ?d1 = 1"
    by (simp_all add: resolve_def DNSCache_init_def Let_def)
  from resolve_again_within_ttl [OF r ne]
  obtain e where e: "cache ?d1 (make_key ''h'' 80) = Some e"
    and a: "\<forall>now resolved now'. cached_at e \<le> now \<longrightarrow>
          (if now - cached_at e < ttl e * ticks_per_second
           then resolve ''h'' 80 now resolved now' ?d1 = ([''a''], ?d1\<lparr>hits := hits ?d1 + 1\<rparr>)
           else fst (resolve ''h'' 80 now resolved now' ?d1) = resolved
              \<and> hits (snd (resolve ''h'' 80 now resolved now' ?d1)) = hits ?d1
              \<and> misses (snd (resolve ''h'' 80 now resolved now' ?d1)) = misses ?d1 + 1)"
    by blast
  from e c have ee: "e = \<lparr>addresses = [''a''], cached_at = 6, ttl = 300\<rparr>" by simp
  have *: "\<And>now resolved now'. 6 \<le> now \<Longrightarrow>
          (if now - 6 < 300 * ticks_per_second
           then resolve ''h'' 80 now resolved now' ?d1 = ([''a''], ?d1\<lparr>hits := hits ?d1 + 1\<rparr>)
           else fst (resolve ''h'' 80 now resolved now' ?d1) = resolved
              \<and> hits (snd (resolve ''h'' 80 now resolved now' ?d1)) = hits ?d1
              \<and> misses (snd (resolve ''h'' 80 now resolved now' ?d1)) = misses ?d1 + 1)"
    using a by (simp add: ee)
  from * [of 7 "[''b'']" 8] * [of 300000000006 "[''b'']" 300000000007] f hm
  show ?thesis by (simp add: ticks_per_second_def)
qed

section \<open>Connection pool\<close>

lemma total_conns_Nil [simp]: "total_conns [] = 0"
  by (simp add: total_conns_def)

lemma total_conns_Cons [simp]: "total_conns (kv # ps) = int (length (snd kv)) + total_conns ps"
  by (simp add: total_conns_def)

lemma total_conns_nonneg: "0 \<le> total_conns ps"
  by (induction ps) auto

lemma total_update_present:
  "map_of ps k = Some v \<Longrightarrow>
     total_conns (AList.update k v' ps) = total_conns ps - int (length v) + int (length v')"
  by (induction ps) (auto split: if_splits)

lemma total_update_absent:
  "map_of ps k = None \<Longrightarrow> total_conns (AList.update k v' ps) = total_conns ps + int (length v')"
  by (induction ps) (auto split: if_splits)

lemma length_erase_at: "length (erase_at i xs) \<le> length xs"
  by (simp add: erase_at_def)

lemma acquire_loop_length: "length (fst (snd (acquire_loop prb now k v w))) \<le> length v"
proof (induction k arbitrary: v w)
  case 0
  show ?case by simp
next
  case (Suc k)
  have e: "length (fst (snd (acquire_loop prb now k (erase_at k v) w'))) \<le> length v" for w'
    using Suc [of "erase_at k v" w'] length_erase_at [of k v] by linarith
  show ?case using Suc e by (auto split: option.splits)
qed

lemma acquire_loop_pool: "pool (snd (snd (acquire_loop prb now k v w))) = pool w"
  by (induction k arbitrary: v w) (auto split: option.splits)

lemma pool_acquire_total:
  "total_conns (pools (pool (snd (pool_acquire prb now h p t w)))) \<le> total_conns (pools (pool w))
   \<and> max_connections (pool (snd (pool_acquire prb now h p t w))) = max_connections (pool w)"
proof (cases "map_of (pools (pool w)) (h, p, t)")
  case None
  then show ?thesis by (simp add: pool_acquire_def)
next
  case (Some v)
  obtain r v' w' where a: "acquire_loop prb now (length v) v w = (r, v', w')"
    by (cases "acquire_loop prb now (length v) v w") auto
  have l: "length v' \<le> length v" using acquire_loop_length [of prb now "length v" v w] a by simp
  have p: "pool w' = pool w" using acquire_loop_pool [of prb now "length v" v w] a by simp
  show ?thesis
    using Some a l p total_update_present [OF Some, of v']
    by (simp add: pool_acquire_def set_pools_def)
qed

lemma pool_release_total:
  "total_conns (pools (pool (pool_release now h p c w)))
     = (if (\<exists>r x. c = Some r \<and> heap w r = Some x \<and> 0 \<le> socket_fd x)
           \<and> total_conns (pools (pool w)) < max_connections (pool w)
        then total_conns (pools (pool w)) + 1 else total_conns (pools (pool w)))
   \<and> max_connections (pool (pool_release now h p c w)) = max_connections (pool w)"
proof (cases c)
  case None
  then show ?thesis by (simp add: pool_release_def)
next
  case (Some r)
  show ?thesis
  proof (cases "heap w r")
    case None
    with Some show ?thesis by (simp add: pool_release_def)
  next
    case (Some x)
    show ?thesis
    proof (cases "map_of (pools (pool w)) (h, p, tls x)")
      case None
      have 1: "total_conns (AList.update (h, p, tls x) [] (pools (pool w))) = total_conns (pools (pool w))"
        using total_update_absent [OF None, of "[]"] by simp
      have 2: "map_of (AList.update (h, p, tls x) [] (pools (pool w))) (h, p, tls x) = Some []"
        by (simp add: update_conv')
      show ?thesis
        using \<open>c = Some r\<close> Some None 1 2
          total_update_present [OF 2, of "[r]"]
        by (simp add: pool_release_def set_pools_def Let_def)
    next
      case (Some v)
      show ?thesis
        using \<open>c = Some r\<close> \<open>heap w r = Some x\<close> Some total_update_present [OF Some, of "v @ [r]"]
        by (simp add: pool_release_def set_pools_def Let_def)
    qed
  qed
qed

lemma remove_idle_length:
  "length (fst (remove_idle now it v w)) \<le> length v \<and> pool (snd (remove_idle now it v w)) = pool w"
proof (induction v arbitrary: w)
  case Nil
  show ?case by simp
next
  case (Cons r rs)
  show ?case
    using Cons [of w] Cons [of "w\<lparr>closed := closed w @ [socket_fd (the (heap w r))]\<rparr>"]
    by (auto split: option.splits prod.splits simp: le_SucI)
qed

lemma cleanup_pools_total:
  "total_conns (fst (cleanup_pools now it ps w)) \<le> total_conns ps
   \<and> pool (snd (cleanup_pools now it ps w)) = pool w"
proof (induction ps arbitrary: w)
  case Nil
  show ?case by simp
next
  case (Cons kv ps)
  obtain k v where kv: "kv = (k, v)" by (cases kv)
  obtain v' w1 where r: "remove_idle now it v w = (v', w1)" by (cases "remove_idle now it v w")
  obtain ps' w2 where c: "cleanup_pools now it ps w1 = (ps', w2)" by (cases "cleanup_pools now it ps w1")
  have "length v' \<le> length v" "pool w1 = pool w" using remove_idle_length [of now it v w] r by simp_all
  moreover have "total_conns ps' \<le> total_conns ps" "pool w2 = pool w1" using Cons [of w1] c by simp_all
  ultimately show ?case using kv r c by simp
qed

lemma cleanup_idle_total:
  "total_conns (pools (pool (cleanup_idle now w))) \<le> total_conns (pools (pool w))
   \<and> max_connections (pool (cleanup_idle now w)) = max_connections (pool w)"
proof -
  obtain ps w' where c: "cleanup_pools now (idle_timeout (pool w)) (pools (pool w)) w = (ps, w')"
    by (cases "cleanup_pools now (idle_timeout (pool w)) (pools (pool w)) w")
  then show ?thesis
    using cleanup_pools_total [of now "idle_timeout (pool w)" "pools (pool w)" w]
    by (simp add: cleanup_idle_def set_pools_def)
qed

lemma pool_step_capacity:
  assumes "total_conns (pools (pool w)) \<le> max_connections (pool w)"
  shows "total_conns (pools (pool (pool_step prb op w))) \<le> max_connections (pool (pool_step prb op w))
    \<and> max_connections (pool (pool_step prb op w)) = max_connections (pool w)"
proof (cases op)
  case (Acquire now h p t)
  then show ?thesis using assms pool_acquire_total [of prb now h p t w] by simp
next
  case (Release now h p c)
  then show ?thesis using assms pool_release_total [of now h p c w] by (simp split: if_splits)
next
  case (CleanupIdle now)
  then show ?thesis using assms cleanup_idle_total [of now w] by simp
next
  case (Store r c)
  then show ?thesis using assms by simp
qed

lemma pool_run_capacity:
  assumes "total_conns (pools (pool w)) \<le> max_connections (pool w)"
  shows "total_conns (pools (pool (pool_run prb ops w))) \<le> max_connections (pool w)
    \<and> max_connections (pool (pool_run prb ops w)) = max_connections (pool w)"
  using assms
proof (induction ops arbitrary: w)
  case Nil
  then show ?case by (simp add: pool_run_def)
next
  case (Cons op ops)
  from pool_step_capacity [OF Cons.prems, of prb op]
  have s: "total_conns (pools (pool (pool_step prb op w))) \<le> max_connections (pool (pool_step prb op w))"
    and m: "max_connections (pool (pool_step prb op w)) = max_connections (pool w)" by simp_all
  from Cons.IH [OF s] m show ?case by (simp add: pool_run_def)
qed

lemma pool_release_closed:
  assumes "heap w r = Some x" "0 \<le> socket_fd x"
  shows "closed (pool_release now h p (Some r) w)
     = (if total_conns (pools (pool w)) < max_connections (pool w) then closed w
        else closed w @ [socket_fd x])"
proof (cases "map_of (pools (pool w)) (h, p, tls x)")
  case None
  have 1: "total_conns (AList.update (h, p, tls x) [] (pools (pool w))) = total_conns (pools (pool w))"
    using total_update_absent [OF None, of "[]"] by simp
  show ?thesis using assms None 1
    by (simp add: pool_release_def set_pools_def Let_def)
next
  case (Some v)
  show ?thesis using assms Some
    by (simp add: pool_release_def set_pools_def Let_def)
qed

text \<open>
  C10. For a pool built with \<open>max_connections \<ge> 0\<close> (the client builds its pool with 200),
  after every sequence of \<open>acquire\<close>, \<open>release\<close> and \<open>cleanup_idle\<close> calls, with any connection
  objects, the number of connections stored over all keys is at most \<open>max_connections\<close>.
  \<open>release\<close> stores one connection more exactly when the connection is valid and the
  stored total is below \<open>max_connections\<close>; for a valid connection at capacity it closes
  the socket instead; \<open>acquire\<close> and \<open>cleanup_idle\<close> never add one.
\<close>

theorem pool_never_exceeds_capacity:
  assumes "0 \<le> mc"
  shows "total_conns (pools (pool (pool_run prb ops (world_init mc it)))) \<le> mc
    \<and> max_connections (pool (pool_run prb ops (world_init mc it))) = mc
    \<and> total_conns (pools (pool (pool_release now h p c w)))
        = (if (\<exists>r x. c = Some r \<and> heap w r = Some x \<and> 0 \<le> socket_fd x)
              \<and> total_conns (pools (pool w)) < max_connections (pool w)
           then total_conns (pools (pool w)) + 1 else total_conns (pools (pool w)))
    \<and> (heap w r = Some x \<and> 0 \<le> socket_fd x \<longrightarrow>
         closed (pool_release now h p (Some r) w)
           = (if total_conns (pools (pool w)) < max_connections (pool w) then closed w
              else closed w @ [socket_fd x]))
    \<and> total_conns (pools (pool (snd (pool_acquire prb now h p t w)))) \<le> total_conns (pools (pool w))
    \<and> total_conns (pools (pool (cleanup_idle now w))) \<le> total_conns (pools (pool w))"
proof -
  have i: "total_conns (pools (pool (world_init mc it))) \<le> max_connections (pool (world_init mc it))"
    using assms by (simp add: world_init_def ConnectionPool_init_def)
  have m: "max_connections (pool (world_init mc it)) = mc"
    by (simp add: world_init_def ConnectionPool_init_def)
  from pool_run_capacity [OF i, of prb ops] m
  have 1: "total_conns (pools (pool (pool_run prb ops (world_init mc it)))) \<le> mc"
    and 2: "max_connections (pool (pool_run prb ops (world_init mc it))) = mc" by simp_all
  show ?thesis
    using 1 2 pool_release_total [of now h p c w] pool_release_closed [of w r x now h p]
      pool_acquire_total [of prb now h p t w] cleanup_idle_total [of now w]
    by (intro conjI impI) simp_all
qed

theorem pool_never_exceeds_capacity_witness:
  "(0::int) \<le> 1
   \<and> total_conns (pools (pool (pool_run (probe server_503)
        [Store 0 \<lparr>socket_fd = 5, tls = False, last_used = 0, in_use = True\<rparr>,
         Store 1 \<lparr>socket_fd = 6, tls = False, last_used = 0, in_use = True\<rparr>,
         Release 1 ''g'' 80 (Some 0), Release 2 ''h'' 80 (Some 1)] (world_init 1 60)))) \<le> 1
   \<and> pools (pool (pool_run (probe server_503)
        [Store 0 \<lparr>socket_fd = 5, tls = False, last_used = 0, in_use = True\<rparr>,
         Store 1 \<lparr>socket_fd = 6, tls = False, last_used = 0, in_use = True\<rparr>,
         Release 1 ''g'' 80 (Some 0), Release 2 ''h'' 80 (Some 1)] (world_init 1 60)))
       = [((''g'', 80, False), [0]), ((''h'', 80, False), [])]
   \<and> closed (pool_run (probe server_503)
        [Store 0 \<lparr>socket_fd = 5, tls = False, last_used = 0, in_use = True\<rparr>,
         Store 1 \<lparr>socket_fd = 6, tls = False, last_used = 0, in_use = True\<rparr>,
         Release 1 ''g'' 80 (Some 0), Release 2 ''h'' 80 (Some 1)] (world_init 1 60)) = [6]"
proof -
  have z: "(0::int) \<le> 1" by simp
  have e: "pools (pool (pool_run (probe server_503)
        [Store 0 \<lparr>socket_fd = 5, tls = False, last_used = 0, in_use = True\<rparr>,
         Store 1 \<lparr>socket_fd = 6, tls = False, last_used = 0, in_use = True\<rparr>,
         Release 1 ''g'' 80 (Some 0), Release 2 ''h'' 80 (Some 1)] (world_init 1 60)))
       = [((''g'', 80, False), [0]), ((''h'', 80, False), [])]
   \<and> closed (pool_run (probe server_503)
        [Store 0 \<lparr>socket_fd = 5, tls = False, last_used = 0, in_use = True\<rparr>,
         Store 1 \<lparr>socket_fd = 6, tls = False, last_used = 0, in_use = True\<rparr>,
         Release 1 ''g'' 80 (Some 0), Release 2 ''h'' 80 (Some 1)] (world_init 1 60)) = [6]"
    by code_simp
  from pool_never_exceeds_capacity [OF z, of "probe server_503"
      "[Store 0 \<lparr>socket_fd = 5, tls = False, last_used = 0, in_use = True\<rparr>,
        Store 1 \<lparr>socket_fd = 6, tls = False, last_used = 0, in_use = True\<rparr>,
        Release 1 ''g'' 80 (Some 0), Release 2 ''h'' 80 (Some 1)]" 60]
  have "total_conns (pools (pool (pool_run (probe server_503)
        [Store 0 \<lparr>socket_fd = 5, tls = False, last_used = 0, in_use = True\<rparr>,
         Store 1 \<lparr>socket_fd = 6, tls = False, last_used = 0, in_use = True\<rparr>,
         Release 1 ''g'' 80 (Some 0), Release 2 ''h'' 80 (Some 1)] (world_init 1 60)))) \<le> 1"
    by blast
  then show ?thesis using z e by blast
qed

lemma acquire_loop_last:
  assumes "heap w r = Some c" "\<not> in_use c" "\<not> dead (prb (socket_fd c))"
  shows "acquire_loop prb now (Suc (length v)) (v @ [r]) w
     = (Some r, v @ [r], w\<lparr>heap := (heap w)(r \<mapsto> c\<lparr>in_use := True, last_used := now\<rparr>)\<rparr>)"
  using assms by simp

lemma pool_release_stored:
  assumes "heap w r = Some c" and "0 \<le> socket_fd c"
    and "total_conns (pools (pool w)) < max_connections (pool w)"
  shows "\<exists>v ps. pool_release now h p (Some r) w
      = set_pools (AList.update (h, p, tls c) (v @ [r]) ps)
          (w\<lparr>heap := (heap w)(r \<mapsto> c\<lparr>in_use := False, last_used := now\<rparr>)\<rparr>)"
proof (cases "map_of (pools (pool w)) (h, p, tls c)")
  case None
  have 1: "total_conns (AList.update (h, p, tls c) [] (pools (pool w))) = total_conns (pools (pool w))"
    using total_update_absent [OF None, of "[]"] by simp
  have 2: "map_of (AList.update (h, p, tls c) [] (pools (pool w))) (h, p, tls c) = Some []"
    by (simp add: update_conv')
  have "pool_release now h p (Some r) w
      = set_pools (AList.update (h, p, tls c) ([] @ [r]) (AList.update (h, p, tls c) [] (pools (pool w))))
          (w\<lparr>heap := (heap w)(r \<mapsto> c\<lparr>in_use := False, last_used := now\<rparr>)\<rparr>)"
    using assms None 1 2 by (simp add: pool_release_def Let_def)
  then show ?thesis by blast
next
  case (Some v)
  have "pool_release now h p (Some r) w
      = set_pools (AList.update (h, p, tls c) (v @ [r]) (pools (pool w)))
          (w\<lparr>heap := (heap w)(r \<mapsto> c\<lparr>in_use := False, last_used := now\<rparr>)\<rparr>)"
    using assms Some by (simp add: pool_release_def Let_def)
  then show ?thesis by blast
qed

text \<open>
  C7, as the claim states it, fails when the pool is full: with \<open>max_connections = 1\<close> and
  one connection stored for another host, \<open>release\<close> closes the connection instead of
  storing it, and the \<open>acquire\<close> that follows finds nothing, though every probe succeeds.
\<close>

theorem release_then_acquire_counterexample:
  "fst (pool_acquire (probe server_503) 3 ''h'' 80 False
         (pool_run (probe server_503)
            [Store 0 \<lparr>socket_fd = 5, tls = False, last_used = 0, in_use = True\<rparr>,
             Store 1 \<lparr>socket_fd = 6, tls = False, last_used = 0, in_use = True\<rparr>,
             Release 1 ''g'' 80 (Some 0), Release 2 ''h'' 80 (Some 1)] (world_init 1 60))) = None"
  by code_simp

text \<open>
  C7, amended. For every key and every connection with \<open>socket_fd \<ge> 0\<close>, when the pool
  stores fewer than \<open>max_connections\<close> connections at the time of the release and the
  liveness probe of the socket succeeds, the \<open>acquire\<close> on the key that follows
  \<open>release\<close> returns that connection, marked \<open>in_use\<close>. (\<open>acquire\<close> does not look at the idle
  time.)
\<close>

theorem release_then_acquire:
  assumes "heap w r = Some c" and "0 \<le> socket_fd c"
    and "total_conns (pools (pool w)) < max_connections (pool w)"
    and "\<not> dead (prb (socket_fd c))"
  shows "fst (pool_acquire prb now' h p (tls c) (pool_release now h p (Some r) w)) = Some r
    \<and> heap (snd (pool_acquire prb now' h p (tls c) (pool_release now h p (Some r) w))) r
        = Some (c\<lparr>in_use := True, last_used := now'\<rparr>)"
proof -
  let ?key = "(h, p, tls c)"
  define c' where "c' = c\<lparr>in_use := False, last_used := now\<rparr>"
  from pool_release_stored [OF assms(1,2,3), of now h p]
  obtain v ps where rel: "pool_release now h p (Some r) w
      = set_pools (AList.update ?key (v @ [r]) ps) (w\<lparr>heap := (heap w)(r \<mapsto> c')\<rparr>)"
    unfolding c'_def by blast
  let ?w2 = "set_pools (AList.update ?key (v @ [r]) ps) (w\<lparr>heap := (heap w)(r \<mapsto> c')\<rparr>)"
  have look: "map_of (pools (pool ?w2)) ?key = Some (v @ [r])"
    by (simp add: set_pools_def update_conv')
  have hp: "heap ?w2 r = Some c'" by (simp add: set_pools_def)
  have nu: "\<not> in_use c'" "\<not> dead (prb (socket_fd c'))"
    using assms(4) by (simp_all add: c'_def)
  have loop: "acquire_loop prb now' (length (v @ [r])) (v @ [r]) ?w2
     = (Some r, v @ [r], ?w2\<lparr>heap := (heap ?w2)(r \<mapsto> c'\<lparr>in_use := True, last_used := now'\<rparr>)\<rparr>)"
    using acquire_loop_last [of ?w2 r c' prb now' v, OF hp nu(1,2)] by simp
  have "pool_acquire prb now' h p (tls c) ?w2
      = (Some r, set_pools (AList.update ?key (v @ [r]) (pools (pool ?w2)))
                   (?w2\<lparr>heap := (heap ?w2)(r \<mapsto> c'\<lparr>in_use := True, last_used := now'\<rparr>)\<rparr>))"
    unfolding pool_acquire_def look option.case loop by (simp add: set_pools_def)
  then show ?thesis unfolding rel by (simp add: set_pools_def c'_def)
qed

theorem release_then_acquire_witness:
  "fst (pool_acquire (probe server_503) 11 ''h'' 80 False
         (pool_release 10 ''h'' 80 (Some 0)
            (pool_step (probe server_503)
               (Store 0 \<lparr>socket_fd = 5, tls = False, last_used = 0, in_use = True\<rparr>)
               (world_init 200 90)))) = Some 0"
proof -
  let ?c = "\<lparr>socket_fd = 5, tls = False, last_used = 0, in_use = True\<rparr>"
  let ?w = "pool_step (probe server_503) (Store 0 ?c) (world_init 200 90)"
  have 1: "heap ?w 0 = Some ?c" by simp
  have 2: "0 \<le> socket_fd ?c" by simp
  have 3: "total_conns (pools (pool ?w)) < max_connections (pool ?w)"
    by (simp add: world_init_def ConnectionPool_init_def)
  have 4: "\<not> dead (probe server_503 (socket_fd ?c))" by (simp add: server_503_def dead_def)
  from release_then_acquire [of ?w 0 ?c "probe server_503" 11 "''h''" 80 10, OF 1 2 3 4]
  show ?thesis by simp
qed

section \<open>Rate limiter\<close>

lemma refill_loop_length:
  "length (refill_loop b now n ts) \<le> max b (length ts)"
proof (induction b now n ts rule: refill_loop.induct)
  case (1 b now n ts)
  show ?case
  proof (cases "length ts < b \<and> 0 < n")
    case True
    then have "refill_loop b now n ts = refill_loop b now (n - 1) (ts @ [now])"
      by (subst refill_loop.simps) simp
    moreover have "length (refill_loop b now (n - 1) (ts @ [now])) \<le> max b (length (ts @ [now]))"
      using "1.IH" True by simp
    ultimately show ?thesis using True by simp
  next
    case False
    then have "refill_loop b now n ts = ts" by (subst refill_loop.simps) auto
    then show ?thesis by simp
  qed
qed

lemma refill_inv:
  assumes "length (tokens l) \<le> burst l" "refill now l = Some l'"
  shows "length (tokens l') \<le> burst l'"
  using assms refill_loop_length [of "burst l" now "cdiv (now - last_refill l) (interval l)" "tokens l"]
  by (auto simp: refill_def Let_def split: if_splits)

lemma acquire_wait_inv:
  assumes "length (tokens l) \<le> burst l"
  shows "(acquire_wait readings l = Returned l' \<longrightarrow> length (tokens l') \<le> burst l')
       \<and> (acquire_wait readings l = Waiting l' \<longrightarrow> length (tokens l') \<le> burst l')"
  using assms
proof (induction readings arbitrary: l)
  case Nil
  then show ?case by auto
next
  case (Cons now later)
  show ?case
  proof (cases "refill now l")
    case None
    then show ?thesis by simp
  next
    case (Some l1)
    have i1: "length (tokens l1) \<le> burst l1" using refill_inv [OF Cons.prems Some] .
    show ?thesis
    proof (cases "tokens l1 = []")
      case True
      then show ?thesis using Some Cons.IH [OF i1] by simp
    next
      case False
      then show ?thesis using Some i1 by auto
    qed
  qed
qed

lemma limiter_acquire_inv:
  assumes "length (tokens l) \<le> burst l"
    and "limiter_acquire readings l = Returned l' \<or> limiter_acquire readings l = Waiting l'"
  shows "length (tokens l') \<le> burst l'"
  using assms acquire_wait_inv [OF assms(1), of readings l']
  by (auto simp: limiter_acquire_def split: if_splits)

lemma try_acquire_inv:
  assumes "length (tokens l) \<le> burst l" "try_acquire now l = Some (ok, l')"
  shows "length (tokens l') \<le> burst l'"
proof (cases "rate l \<le> 0")
  case True
  with assms show ?thesis by (simp add: try_acquire_def)
next
  case False
  with assms(2) obtain l1 where r: "refill now l = Some l1"
    by (auto simp: try_acquire_def split: option.splits)
  have "length (tokens l1) \<le> burst l1" using refill_inv [OF assms(1) r] .
  then show ?thesis using assms(2) False r by (auto simp: try_acquire_def split: if_splits)
qed

lemma refill_burst_reached:
  "refill 1000000000 (RateLimiter_init 10 3 0)
     = Some \<lparr>rate = 10, burst = 3, interval = 100000000,
             tokens = [1000000000, 1000000000, 1000000000], last_refill = 1000000000\<rparr>"
  by (simp add: refill_def RateLimiter_init_def cdiv_def Let_def refill_loop.simps)

text \<open>
  C9. In every state that a rate limiter reaches from its construction by \<open>refill\<close>,
  \<open>acquire\<close> (returned or still waiting), \<open>try_acquire\<close> and \<open>set_rate\<close>, the token deque holds
  at most \<open>burst\<close> tokens.
\<close>

theorem tokens_never_exceed_burst:
  assumes "limiter_reachable l"
  shows "length (tokens l) \<le> burst l"
  using assms
proof (induction rule: limiter_reachable.induct)
  case (constructed r b now)
  show ?case by (simp add: RateLimiter_init_def)
next
  case (refilled l now l')
  then show ?case using refill_inv by blast
next
  case (acquired l readings l')
  then show ?case using limiter_acquire_inv by blast
next
  case (waiting l readings l')
  then show ?case using limiter_acquire_inv by blast
next
  case (tried l now ok l')
  then show ?case using try_acquire_inv by blast
next
  case (rate_set l r b now)
  show ?case by (simp add: set_rate_def)
qed

theorem tokens_never_exceed_burst_witness:
  "limiter_reachable \<lparr>rate = 10, burst = 3, interval = 100000000,
                       tokens = [1000000000, 1000000000, 1000000000], last_refill = 1000000000\<rparr>
   \<and> length (tokens \<lparr>rate = 10, burst = 3, interval = 100000000,
                       tokens = [1000000000, 1000000000, 1000000000], last_refill = 1000000000\<rparr>)
       \<le> burst \<lparr>rate = 10, burst = 3, interval = 100000000,
                  tokens = [1000000000, 1000000000, 1000000000], last_refill = 1000000000\<rparr>"
proof -
  have r: "limiter_reachable \<lparr>rate = 10, burst = 3, interval = 100000000,
                       tokens = [1000000000, 1000000000, 1000000000], last_refill = 1000000000\<rparr>"
    using limiter_reachable.refilled [OF limiter_reachable.constructed refill_burst_reached] .
  from tokens_never_exceed_burst [OF r] r show ?thesis by blast
qed

end
